theory Spec2Isabelle
  imports Complex_Main "HOL-Library.Word"
begin

unbundle bit_operations_syntax

section \<open>The image worker: orientation decoder\<close>

text \<open>
  An \<open>ArrayBuffer\<close> is a list of bytes. The offsets and the values read are JavaScript
  numbers that stay non-negative integers far below \<open>2 ^ 53\<close>, so they are natural numbers.
\<close>

type_synonym byte = "8 word"
type_synonym ArrayBuffer = "byte list"

text \<open>
  What a JavaScript \<open>throw\<close> can carry in the worker: the \<open>RangeError\<close> of a \<open>DataView\<close>
  read past the end, the \<open>TypeError\<close> of the canvas interface, any other \<open>Error\<close> object
  of the host with its message, and a thrown value that is not an \<open>Error\<close>.
\<close>

datatype exn = RangeError | TypeError | HostError string | NonError

text \<open>
  \<open>DataView.prototype.getUint16(byteOffset, littleEndian)\<close> and \<open>getUint32\<close>: a read of
  2 (4) bytes that throws \<open>RangeError\<close> unless it lies inside the view.
\<close>

definition getUint16 :: "ArrayBuffer \<Rightarrow> nat \<Rightarrow> bool \<Rightarrow> exn + nat" where
  "getUint16 view byteOffset littleEndian =
     (if byteOffset + 2 > length view then Inl RangeError
      else let b0 = unat (view ! byteOffset); b1 = unat (view ! (byteOffset + 1))
           in Inr (if littleEndian then b0 + 256 * b1 else 256 * b0 + b1))"

definition getUint32 :: "ArrayBuffer \<Rightarrow> nat \<Rightarrow> bool \<Rightarrow> exn + nat" where
  "getUint32 view byteOffset littleEndian =
     (if byteOffset + 4 > length view then Inl RangeError
      else let b0 = unat (view ! byteOffset); b1 = unat (view ! (byteOffset + 1));
               b2 = unat (view ! (byteOffset + 2)); b3 = unat (view ! (byteOffset + 3))
           in Inr (if littleEndian then b0 + 256 * b1 + 65536 * b2 + 16777216 * b3
                   else 16777216 * b0 + 65536 * b1 + 256 * b2 + b3))"

text \<open>
  The \<open>for\<close> loop over the directory entries (lines 51 to 58 of the worker).
  \<open>Inr (Some v)\<close> is the \<open>return v\<close> inside the loop, \<open>Inr None\<close> is the loop running
  out, \<open>Inl e\<close> is a read that threw. \<open>dirStart\<close> is \<open>tiffOffset + ifdOffset\<close>.
\<close>

function tagLoop :: "ArrayBuffer \<Rightarrow> bool \<Rightarrow> nat \<Rightarrow> nat \<Rightarrow> nat \<Rightarrow> exn + nat option" where
  "tagLoop view littleEndian dirStart tagCount i =
     (if i < tagCount then
        (let tagOffset = dirStart + 2 + (i * 12) in
         case getUint16 view tagOffset littleEndian of
           Inl e \<Rightarrow> Inl e
         | Inr tag \<Rightarrow>
             if tag = 0x0112 then
               (case getUint16 view (tagOffset + 8) littleEndian of
                  Inl e \<Rightarrow> Inl e
                | Inr v \<Rightarrow> Inr (Some v))
             else tagLoop view littleEndian dirStart tagCount (i + 1))
      else Inr None)"
  by pat_completeness auto
termination
  by (relation "measure (\<lambda>(view, littleEndian, dirStart, tagCount, i). tagCount - i)") auto

text \<open>
  How one pass through the body of the \<open>while\<close> loop ends: with the next offset, with
  \<open>break\<close>, with \<open>return v\<close>, or with an exception.
\<close>

datatype loop_exit = Continue nat | Break | Return nat | Throw exn

text \<open>
  The branch for the marker \<open>0xFFE1\<close> (lines 42 to 60); \<open>offset\<close> is the offset after
  \<open>offset += 2\<close> of line 42.
\<close>

definition exifSegment :: "ArrayBuffer \<Rightarrow> nat \<Rightarrow> loop_exit" where
  "exifSegment view offset =
     (case getUint32 view offset False of
        Inl e \<Rightarrow> Throw e
      | Inr signature \<Rightarrow>
          if signature = 0x45786966 then
            (let tiffOffset = offset + 6 in
             case getUint16 view tiffOffset False of
               Inl e \<Rightarrow> Throw e
             | Inr byteOrder \<Rightarrow>
                 (let littleEndian = (byteOrder = 0x4949) in
                  case getUint32 view (tiffOffset + 4) littleEndian of
                    Inl e \<Rightarrow> Throw e
                  | Inr ifdOffset \<Rightarrow>
                      (case getUint16 view (tiffOffset + ifdOffset) littleEndian of
                         Inl e \<Rightarrow> Throw e
                       | Inr tagCount \<Rightarrow>
                           (case tagLoop view littleEndian (tiffOffset + ifdOffset) tagCount 0 of
                              Inl e \<Rightarrow> Throw e
                            | Inr (Some v) \<Rightarrow> Return v
                            | Inr None \<Rightarrow> Break))))
          else Break)"

text \<open>The body of the \<open>while\<close> loop (lines 38 to 65), entered with \<open>offset < length\<close>.\<close>

definition scanStep :: "ArrayBuffer \<Rightarrow> nat \<Rightarrow> loop_exit" where
  "scanStep view offset =
     (case getUint16 view offset False of
        Inl e \<Rightarrow> Throw e
      | Inr marker \<Rightarrow>
          (let offset = offset + 2 in
           if marker = 0xFFE1 then exifSegment view (offset + 2)
           else if marker AND 0xFF00 \<noteq> 0xFF00 then Break
           else (case getUint16 view offset False of
                   Inl e \<Rightarrow> Throw e
                 | Inr segmentLength \<Rightarrow> Continue (offset + segmentLength))))"

text \<open>The \<open>while (offset < length)\<close> loop, followed by the \<open>return 1\<close> of line 68.\<close>

function scan :: "ArrayBuffer \<Rightarrow> nat \<Rightarrow> exn + nat" where
  "scan view offset =
     (if offset < length view then
        (case scanStep view offset of
           Continue offset' \<Rightarrow> scan view offset'
         | Break \<Rightarrow> Inr 1
         | Return v \<Rightarrow> Inr v
         | Throw e \<Rightarrow> Inl e)
      else Inr 1)"
  by pat_completeness auto
termination
proof (relation "measure (\<lambda>(view, offset). length view - offset)")
  show "wf (measure (\<lambda>(view, offset). length view - offset))"
    by simp
next
  fix view :: ArrayBuffer and offset offset' :: nat
  assume "offset < length view" and "scanStep view offset = Continue offset'"
  have "offset + 2 \<le> offset'"
    using \<open>scanStep view offset = Continue offset'\<close>
    unfolding scanStep_def exifSegment_def Let_def
    by (simp split: sum.splits if_splits option.splits)
  with \<open>offset < length view\<close>
  show "((view, offset'), (view, offset)) \<in> measure (\<lambda>(view, offset). length view - offset)"
    by simp
qed

declare scan.simps [simp del]
declare tagLoop.simps [simp del]

text \<open>\<open>getImageOrientation\<close> (lines 27 to 69).\<close>

definition getImageOrientation :: "ArrayBuffer \<Rightarrow> exn + nat" where
  "getImageOrientation buffer =
     (case getUint16 buffer 0 False of
        Inl e \<Rightarrow> Inl e
      | Inr soi \<Rightarrow> if soi \<noteq> 0xFFD8 then Inr 1 else scan buffer 2)"

text \<open>
  The same loop with a budget of iterations: \<open>None\<close> is the budget running out before
  the loop has ended.
\<close>

fun scanFuel :: "nat \<Rightarrow> ArrayBuffer \<Rightarrow> nat \<Rightarrow> (exn + nat) option" where
  "scanFuel fuel view offset =
     (if offset < length view then
        (case fuel of
           0 \<Rightarrow> None
         | Suc fuel' \<Rightarrow>
             (case scanStep view offset of
                Continue offset' \<Rightarrow> scanFuel fuel' view offset'
              | Break \<Rightarrow> Some (Inr 1)
              | Return v \<Rightarrow> Some (Inr v)
              | Throw e \<Rightarrow> Some (Inl e)))
      else Some (Inr 1))"

declare scanFuel.simps [simp del]







section \<open>The image worker: numbers\<close>

text \<open>
  The arithmetic of lines 121 to 125 is IEEE 754 double precision. A finite double is the
  rational number it denotes; \<open>roundToDouble\<close> rounds a rational to the nearest double
  with a 53-bit significand, ties to the even significand. Overflow to infinity and
  subnormal numbers are left out: the quotients and products of lines 122 to 124 are
  taken on integers of magnitude below \<open>2 ^ 53\<close> with non-zero divisors, and stay in the
  normal range. \<open>NaN\<close> is not a value of this model.
\<close>

type_synonym number = rat

text \<open>The number of binary digits of a positive integer.\<close>

function bitLength :: "int \<Rightarrow> int" where
  "bitLength n = (if n \<le> 0 then 0 else 1 + bitLength (n div 2))"
  by pat_completeness auto
termination
  by (relation "measure nat") auto

declare bitLength.simps [simp del]

definition pow2 :: "int \<Rightarrow> rat" where
  "pow2 e = (if 0 \<le> e then 2 ^ nat e else 1 / 2 ^ nat (- e))"

text \<open>For \<open>0 < x\<close>, the exponent \<open>e\<close> with \<open>2 ^ e \<le> x < 2 ^ (e + 1)\<close>.\<close>

definition binade :: "rat \<Rightarrow> int" where
  "binade x =
     (if 1 \<le> x then bitLength \<lfloor>x\<rfloor> - 1
      else - bitLength (\<lceil>1 / x\<rceil> - 1))"

definition roundTiesToEven :: "rat \<Rightarrow> int" where
  "roundTiesToEven x =
     (let n = \<lfloor>x\<rfloor>; d = x - of_int n
      in if d < 1 / 2 then n
         else if 1 / 2 < d then n + 1
         else if even n then n else n + 1)"

definition roundToDouble :: "rat \<Rightarrow> number" where
  "roundToDouble x =
     (if x = 0 then 0
      else let a = \<bar>x\<bar>; ulp = pow2 (binade a - 52)
           in sgn x * (of_int (roundTiesToEven (a / ulp)) * ulp))"

text \<open>JavaScript's \<open>/\<close> and \<open>*\<close> on numbers, \<open>Math.min\<close> and \<open>Math.round\<close>.\<close>

definition jsDiv :: "number \<Rightarrow> number \<Rightarrow> number" where
  "jsDiv a b = roundToDouble (a / b)"

definition jsMul :: "number \<Rightarrow> number \<Rightarrow> number" where
  "jsMul a b = roundToDouble (a * b)"

definition Math_min :: "number \<Rightarrow> number \<Rightarrow> number" where
  "Math_min a b = (if b < a then b else a)"

definition Math_round :: "number \<Rightarrow> int" where
  "Math_round x = \<lfloor>x + 1 / 2\<rfloor>"

section \<open>The image worker: \<open>processImage\<close>\<close>

record Dimensions =
  width :: int
  height :: int

record ImageProcessingOptions =
  quality :: number
  maxWidth :: int
  maxHeight :: int
  format :: string

record ProcessImageMessage =
  msg_id :: string
  imageData :: ArrayBuffer
  msg_filename :: string
  options :: ImageProcessingOptions

record ProcessImageResult =
  res_id :: string
  success :: bool
  originalSize :: nat
  compressedSize :: nat
  originalDimensions :: Dimensions
  compressedDimensions :: Dimensions
  compressedData :: "ArrayBuffer option"
  res_filename :: string
  error :: "string option"

text \<open>
  A decoded \<open>ImageBitmap\<close>: its size and its pixels. The current transformation matrix
  of a 2D context is the six numbers \<open>(a, b, c, d, e, f)\<close> of \<open>ctx.transform\<close>.
\<close>

record ImageBitmap =
  bitmapWidth :: int
  bitmapHeight :: int
  pixels :: "nat list"

type_synonym matrix = "int \<times> int \<times> int \<times> int \<times> int \<times> int"

text \<open>
  The canvas of the worker: the size of its bitmap, and the matrix of its 2D context,
  \<open>None\<close> when \<open>getContext('2d')\<close> returned \<open>null\<close>.
\<close>

record Canvas =
  canvasWidth :: int
  canvasHeight :: int
  ctx :: "matrix option"

text \<open>
  What the browser does and the worker only calls: decoding
  (\<open>createImageBitmap\<close>), whether \<open>getContext('2d')\<close> gives a context, drawing the
  bitmap on the canvas under the current matrix (\<open>drawImage\<close>, giving the pixels of
  the canvas) and encoding them (\<open>convertToBlob\<close> followed by \<open>arrayBuffer\<close>). Each
  of them may throw.
\<close>

record host =
  createImageBitmap :: "ArrayBuffer \<Rightarrow> exn + ImageBitmap"
  getContext :: "int \<Rightarrow> int \<Rightarrow> bool"
  drawImage :: "Canvas \<Rightarrow> ImageBitmap \<Rightarrow> int \<Rightarrow> int \<Rightarrow> exn + nat list"
  convertToBlob :: "Canvas \<Rightarrow> nat list \<Rightarrow> string \<Rightarrow> number option \<Rightarrow> exn + ArrayBuffer"

text \<open>
  \<open>new OffscreenCanvas(width, height)\<close> followed by \<open>getContext('2d')\<close> (lines 131 and
  132). The arguments of the constructor are \<open>[EnforceRange] unsigned long long\<close>: a
  value outside \<open>0 .. 2 ^ 53 - 1\<close> throws \<open>TypeError\<close>.
\<close>

definition newOffscreenCanvas :: "host \<Rightarrow> int \<Rightarrow> int \<Rightarrow> exn + Canvas" where
  "newOffscreenCanvas h w ht =
     (if 0 \<le> w \<and> w < 2 ^ 53 \<and> 0 \<le> ht \<and> ht < 2 ^ 53 then
        Inr \<lparr>canvasWidth = w, canvasHeight = ht,
             ctx = (if getContext h w ht then Some (1, 0, 0, 1, 0, 0) else None)\<rparr>
      else Inl TypeError)"

text \<open>
  \<open>ctx.transform(a, b, c, d, e, f)\<close> multiplies the current matrix by the given one;
  on a \<open>null\<close> context the call throws \<open>TypeError\<close>.
\<close>

definition transform :: "Canvas \<Rightarrow> matrix \<Rightarrow> exn + Canvas" where
  "transform canvas m =
     (case ctx canvas of
        None \<Rightarrow> Inl TypeError
      | Some (a0, b0, c0, d0, e0, f0) \<Rightarrow>
          (case m of (a, b, c, d, e, f) \<Rightarrow>
             Inr (canvas\<lparr>ctx := Some (a0 * a + c0 * b, b0 * a + d0 * b,
                                       a0 * c + c0 * d, b0 * c + d0 * d,
                                       a0 * e + c0 * f + e0, b0 * e + d0 * f + f0)\<rparr>)))"

text \<open>
  Assigning \<open>canvas.width\<close> or \<open>canvas.height\<close> resizes the bitmap and resets the
  context to its default state.
\<close>

definition setWidth :: "Canvas \<Rightarrow> int \<Rightarrow> Canvas" where
  "setWidth canvas w =
     canvas\<lparr>canvasWidth := w, ctx := map_option (\<lambda>_. (1, 0, 0, 1, 0, 0)) (ctx canvas)\<rparr>"

definition setHeight :: "Canvas \<Rightarrow> int \<Rightarrow> Canvas" where
  "setHeight canvas ht =
     canvas\<lparr>canvasHeight := ht, ctx := map_option (\<lambda>_. (1, 0, 0, 1, 0, 0)) (ctx canvas)\<rparr>"

text \<open>\<open>applyOrientation\<close> (lines 71 to 105).\<close>

definition applyOrientation :: "Canvas \<Rightarrow> nat \<Rightarrow> exn + Canvas" where
  "applyOrientation canvas orientation =
     (let width = canvasWidth canvas; height = canvasHeight canvas in
      if orientation = 2 then transform canvas (- 1, 0, 0, 1, width, 0)
      else if orientation = 3 then transform canvas (- 1, 0, 0, - 1, width, height)
      else if orientation = 4 then transform canvas (1, 0, 0, - 1, 0, height)
      else if orientation = 5 then
        transform (setHeight (setWidth canvas height) width) (0, 1, 1, 0, 0, 0)
      else if orientation = 6 then
        transform (setHeight (setWidth canvas height) width) (0, 1, - 1, 0, height, 0)
      else if orientation = 7 then
        transform (setHeight (setWidth canvas height) width) (0, - 1, - 1, 0, height, width)
      else if orientation = 8 then
        transform (setHeight (setWidth canvas height) width) (0, - 1, 1, 0, 0, width)
      else Inr canvas)"

text \<open>
  Lines 117 to 125: the planned width and height. The bitmap of \<open>createImageBitmap\<close>
  has a positive width and height, so the divisors are not zero.
\<close>

definition scaleDimensions :: "int \<Rightarrow> int \<Rightarrow> int \<Rightarrow> int \<Rightarrow> int \<times> int" where
  "scaleDimensions = (\<lambda>width height maxWidth maxHeight.
     if width > maxWidth \<or> height > maxHeight then
       (let ratio = Math_min (jsDiv (of_int maxWidth) (of_int width))
                             (jsDiv (of_int maxHeight) (of_int height))
        in (Math_round (jsMul (of_int width) ratio), Math_round (jsMul (of_int height) ratio)))
     else (width, height))"

text \<open>Lines 127 to 129: the size given to the constructor of the canvas.\<close>

definition displayDimensions :: "nat \<Rightarrow> int \<times> int \<Rightarrow> int \<times> int" where
  "displayDimensions orientation = (\<lambda>(width, height).
     let needsRotation = orientation > 4;
         displayWidth = (if needsRotation then height else width);
         displayHeight = (if needsRotation then width else height)
     in (displayWidth, displayHeight))"

text \<open>
  Lines 127 to 134: the canvas as it is when \<open>drawImage\<close> is called, that is after
  the constructor and \<open>applyOrientation\<close>.
\<close>

definition outputCanvas :: "host \<Rightarrow> nat \<Rightarrow> int \<times> int \<Rightarrow> exn + Canvas" where
  "outputCanvas h orientation wh =
     (case displayDimensions orientation wh of (displayWidth, displayHeight) \<Rightarrow>
        (case newOffscreenCanvas h displayWidth displayHeight of
           Inl e \<Rightarrow> Inl e
         | Inr canvas \<Rightarrow> applyOrientation canvas orientation))"

definition mimeType :: "string \<Rightarrow> string" where
  "mimeType fmt =
     (if fmt = ''png'' then ''image/png''
      else if fmt = ''webp'' then ''image/webp'' else ''image/jpeg'')"

text \<open>The body of the \<open>try\<close> block (lines 109 to 157); \<open>Inl e\<close> is an exception.\<close>

definition processImageTry :: "host \<Rightarrow> ProcessImageMessage \<Rightarrow> exn + ProcessImageResult" where
  "processImageTry h data =
     (case createImageBitmap h (imageData data) of
        Inl e \<Rightarrow> Inl e
      | Inr bitmap \<Rightarrow>
     (case getImageOrientation (imageData data) of
        Inl e \<Rightarrow> Inl e
      | Inr orientation \<Rightarrow>
     (let originalWidth = bitmapWidth bitmap;
          originalHeight = bitmapHeight bitmap;
          wh = scaleDimensions (bitmapWidth bitmap) (bitmapHeight bitmap)
                 (maxWidth (options data)) (maxHeight (options data));
          display = displayDimensions orientation wh
      in
     (case outputCanvas h orientation wh of
        Inl e \<Rightarrow> Inl e
      | Inr canvas \<Rightarrow>
     (case drawImage h canvas bitmap (fst wh) (snd wh) of
        Inl e \<Rightarrow> Inl e
      | Inr surface \<Rightarrow>
     (case convertToBlob h canvas surface (mimeType (format (options data)))
             (if format (options data) = ''png'' then None
              else Some (quality (options data))) of
        Inl e \<Rightarrow> Inl e
      | Inr compressed \<Rightarrow>
          Inr \<lparr>res_id = msg_id data,
               success = True,
               originalSize = length (imageData data),
               compressedSize = length compressed,
               originalDimensions = \<lparr>width = originalWidth, height = originalHeight\<rparr>,
               compressedDimensions = \<lparr>width = fst display, height = snd display\<rparr>,
               compressedData = Some compressed,
               res_filename = msg_filename data,
               error = None\<rparr>))))))"

text \<open>
  \<open>error instanceof Error ? error.message : 'Unknown error'\<close> (line 168). The text of
  the message of a built-in error is the engine's.
\<close>

definition errorMessage :: "exn \<Rightarrow> string" where
  "errorMessage e =
     (case e of
        RangeError \<Rightarrow> ''Offset is outside the bounds of the DataView''
      | TypeError \<Rightarrow> ''Type error''
      | HostError m \<Rightarrow> m
      | NonError \<Rightarrow> ''Unknown error'')"

text \<open>\<open>processImage\<close> (lines 107 to 171): the \<open>try\<close> block and its \<open>catch\<close>.\<close>

definition processImage :: "host \<Rightarrow> ProcessImageMessage \<Rightarrow> ProcessImageResult" where
  "processImage h data =
     (case processImageTry h data of
        Inr result \<Rightarrow> result
      | Inl e \<Rightarrow>
          \<lparr>res_id = msg_id data,
           success = False,
           originalSize = 0,
           compressedSize = 0,
           originalDimensions = \<lparr>width = 0, height = 0\<rparr>,
           compressedDimensions = \<lparr>width = 0, height = 0\<rparr>,
           compressedData = None,
           res_filename = msg_filename data,
           error = Some (errorMessage e)\<rparr>)"

section \<open>The dispatch queue manager (\<open>main.ts\<close>)\<close>

record ImageFile =
  file_id :: string
  file_name :: string
  file_originalData :: ArrayBuffer
  file_compressedData :: "ArrayBuffer option"
  file_originalSize :: nat
  file_compressedSize :: "nat option"
  file_originalDimensions :: "Dimensions option"
  file_compressedDimensions :: "Dimensions option"
  processed :: bool
  selected :: bool

text \<open>
  The fields of \<open>ImageCompressionTool\<close> that the manager reads and writes, followed by
  the part of the event loop that its callbacks live in. \<open>files\<close> is a \<open>Map\<close> in
  insertion order. The workers are numbered from 0; \<open>workerStatus ! w\<close> is the entry of
  worker \<open>w\<close> (\<open>True\<close> is busy). \<open>timers\<close> counts the pending
  \<open>setTimeout(processNext, 10)\<close>; \<open>pendingSends\<close> holds the pending timeouts of
  line 402, each with its worker, its file id and whether \<open>files.get\<close> had found the
  file; \<open>inbox ! w\<close> holds the jobs posted to worker \<open>w\<close> whose result has not been
  delivered yet.
\<close>

record tool =
  files :: "(string \<times> ImageFile) list"
  workerStatus :: "bool list"
  maxWorkers :: nat
  processingQueue :: "string list"
  processing :: bool
  compressBtnDisabled :: bool
  timers :: nat
  pendingSends :: "(nat \<times> string \<times> bool) list"
  inbox :: "string list list"

text \<open>\<open>Map.prototype.set\<close>: a known key keeps its place, a new key goes last.\<close>

fun mapSet :: "(string \<times> 'v) list \<Rightarrow> string \<Rightarrow> 'v \<Rightarrow> (string \<times> 'v) list" where
  "mapSet [] k v = [(k, v)]"
| "mapSet ((k', v') # kvs) k v = (if k' = k then (k, v) # kvs else (k', v') # mapSet kvs k v)"

text \<open>The state after the constructor (\<open>initializeWorkers\<close>, lines 128 to 147) with \<open>n\<close> workers.\<close>

definition initialState :: "nat \<Rightarrow> tool" where
  "initialState n =
     \<lparr>files = [], workerStatus = replicate n False, maxWorkers = n, processingQueue = [],
      processing = False, compressBtnDisabled = False, timers = 0, pendingSends = [],
      inbox = replicate n []\<rparr>"

text \<open>One file of \<open>addFiles\<close> (lines 253 to 262).\<close>

definition addFile :: "string \<Rightarrow> string \<Rightarrow> ArrayBuffer \<Rightarrow> tool \<Rightarrow> tool" where
  "addFile ident name originalData st =
     st\<lparr>files := mapSet (files st) ident
        \<lparr>file_id = ident, file_name = name, file_originalData = originalData,
         file_compressedData = None, file_originalSize = length originalData,
         file_compressedSize = None, file_originalDimensions = None,
         file_compressedDimensions = None, processed = False, selected = True\<rparr>\<rparr>"

text \<open>\<open>this.workers.find(w => !this.workerStatus.get(w))\<close> (line 324).\<close>

fun findIdle :: "bool list \<Rightarrow> nat option" where
  "findIdle [] = None"
| "findIdle (busy # rest) = (if \<not> busy then Some 0 else map_option Suc (findIdle rest))"

text \<open>
  \<open>sendImageToWorker\<close> (lines 343 to 357). With \<open>imageFile\<close> undefined, reading
  \<open>imageFile.originalData\<close> throws and nothing is posted: the second component says
  whether the call threw.
\<close>

definition sendImageToWorker :: "nat \<Rightarrow> string \<Rightarrow> bool \<Rightarrow> tool \<Rightarrow> tool \<times> bool" where
  "sendImageToWorker worker fileId found st =
     (if found then (st\<lparr>inbox := (inbox st)[worker := (inbox st ! worker) @ [fileId]]\<rparr>, False)
      else (st, True))"

text \<open>\<open>processNext\<close> (lines 321 to 336); the second component says whether it threw.\<close>

definition processNext :: "tool \<Rightarrow> tool \<times> bool" where
  "processNext st =
     (if processingQueue st = [] then (st, False)
      else case findIdle (workerStatus st) of
             None \<Rightarrow> (st, False)
           | Some availableWorker \<Rightarrow>
               (let fileId = hd (processingQueue st);
                    st1 = st\<lparr>processingQueue := tl (processingQueue st)\<rparr>;
                    imageFile = map_of (files st1) fileId;
                    st2 = st1\<lparr>workerStatus := (workerStatus st1)[availableWorker := True]\<rparr>
                in case sendImageToWorker availableWorker fileId (imageFile \<noteq> None) st2 of
                     (st3, threw) \<Rightarrow>
                       if threw then (st3, True)
                       else (st3\<lparr>timers := timers st3 + 1\<rparr>, False)))"

text \<open>The \<open>for\<close> loop of lines 338 to 340, which an exception of \<open>processNext\<close> leaves.\<close>

fun processNextLoop :: "nat \<Rightarrow> tool \<Rightarrow> tool" where
  "processNextLoop 0 st = st"
| "processNextLoop (Suc n) st =
     (case processNext st of (st', threw) \<Rightarrow> if threw then st' else processNextLoop n st')"

text \<open>\<open>startCompression\<close> (lines 309 to 341).\<close>

definition startCompression :: "tool \<Rightarrow> tool" where
  "startCompression st =
     (if length (files st) = 0 \<or> processing st then st
      else let st1 = st\<lparr>processing := True, compressBtnDisabled := True,
                         processingQueue := map fst (files st)\<rparr>;
               total = length (processingQueue st1)
           in processNextLoop (min (maxWorkers st1) total) st1)"

text \<open>\<open>handleWorkerMessage\<close> (lines 359 to 407), for the message of worker \<open>worker\<close>.\<close>

definition handleWorkerMessage :: "nat \<Rightarrow> ProcessImageResult \<Rightarrow> tool \<Rightarrow> tool" where
  "handleWorkerMessage worker result st =
     (let imageFile = map_of (files st) (res_id result);
          st1 = st\<lparr>workerStatus := (workerStatus st)[worker := False]\<rparr>
      in case imageFile of
           None \<Rightarrow> st1
         | Some f \<Rightarrow>
             (let st2 =
                    (if success result \<and> compressedData result \<noteq> None then
                       st1\<lparr>files := mapSet (files st1) (res_id result)
                              (f\<lparr>file_compressedData := compressedData result,
                                 file_compressedSize := Some (compressedSize result),
                                 file_originalDimensions := Some (originalDimensions result),
                                 file_compressedDimensions := Some (compressedDimensions result),
                                 processed := True\<rparr>)\<rparr>
                     else st1);
                  completedCount = length (filter (\<lambda>f. processed f) (map snd (files st2)));
                  total = length (files st2)
              in if completedCount = total then
                   st2\<lparr>processing := False, compressBtnDisabled := False\<rparr>
                 else if length (processingQueue st2) > 0 then
                   (let nextFileId = hd (processingQueue st2);
                        st3 = st2\<lparr>processingQueue := tl (processingQueue st2)\<rparr>;
                        nextImageFile = map_of (files st3) nextFileId
                    in st3\<lparr>workerStatus := (workerStatus st3)[worker := True],
                           pendingSends := pendingSends st3 @ [(worker, nextFileId, nextImageFile \<noteq> None)]\<rparr>)
                 else st2))"

text \<open>\<open>clearAll\<close> (lines 645 to 664).\<close>

definition clearAll :: "tool \<Rightarrow> tool" where
  "clearAll st =
     st\<lparr>files := [], processingQueue := [], processing := False, compressBtnDisabled := False\<rparr>"

text \<open>
  What can happen next, each handler running to its end before the next event: a file is
  added, the compress or the clear button is clicked, a timeout of \<open>processNext\<close> fires,
  the pending timeout number \<open>k\<close> of line 402 fires, or worker \<open>w\<close> delivers the result
  of a job in its inbox. An event that cannot happen in the state leaves it as it is.
  The \<open>onerror\<close> callback of a worker (lines 133 to 138) is not among the events.
\<close>

datatype event =
    AddFile string string ArrayBuffer
  | CompressClick
  | ClearClick
  | TimerFires
  | SendFires nat
  | ResultArrives nat ProcessImageResult

definition step :: "tool \<Rightarrow> event \<Rightarrow> tool" where
  "step st ev =
     (case ev of
        AddFile ident name originalData \<Rightarrow> addFile ident name originalData st
      | CompressClick \<Rightarrow> (if compressBtnDisabled st then st else startCompression st)
      | ClearClick \<Rightarrow> clearAll st
      | TimerFires \<Rightarrow>
          (if timers st = 0 then st else fst (processNext (st\<lparr>timers := timers st - 1\<rparr>)))
      | SendFires k \<Rightarrow>
          (if k < length (pendingSends st) then
             (case pendingSends st ! k of (worker, fileId, found) \<Rightarrow>
                fst (sendImageToWorker worker fileId found
                       (st\<lparr>pendingSends := take k (pendingSends st) @ drop (Suc k) (pendingSends st)\<rparr>)))
           else st)
      | ResultArrives w result \<Rightarrow>
          (if w < length (inbox st) \<and> res_id result \<in> set (inbox st ! w) then
             handleWorkerMessage w result
               (st\<lparr>inbox := (inbox st)[w := remove1 (res_id result) (inbox st ! w)]\<rparr>)
           else st))"

definition run :: "event list \<Rightarrow> tool \<Rightarrow> tool" where
  "run evs st = foldl step st evs"

text \<open>The number of slots marked busy, and the jobs that are with worker \<open>w\<close> or on their way to it.\<close>

definition busyCount :: "tool \<Rightarrow> nat" where
  "busyCount st = length (filter (\<lambda>busy. busy) (workerStatus st))"

definition assigned :: "tool \<Rightarrow> nat \<Rightarrow> string list" where
  "assigned st w =
     (inbox st ! w) @ map (\<lambda>p. fst (snd p)) (filter (\<lambda>p. fst p = w) (pendingSends st))"

definition completedCount :: "tool \<Rightarrow> nat" where
  "completedCount st = length (filter (\<lambda>f. processed f) (map snd (files st)))"

text \<open>
  The invariant of the slots: every worker has a status and an inbox, a pending send
  names a worker that exists, and the jobs that are with a worker or on their way to it
  are none when the worker is marked idle and at most one when it is marked busy.
\<close>

definition slotInv :: "tool \<Rightarrow> bool" where
  "slotInv st \<longleftrightarrow>
     length (workerStatus st) = maxWorkers st \<and>
     length (inbox st) = maxWorkers st \<and>
     (\<forall>p \<in> set (pendingSends st). fst p < maxWorkers st) \<and>
     (\<forall>w < maxWorkers st.
        length (assigned st w) \<le> (if workerStatus st ! w then 1 else 0))"

section \<open>Sample inputs\<close>

text \<open>
  A JPEG header whose Exif segment holds one directory entry, the orientation tag
  \<open>0x0112\<close> with the value \<open>v\<close>, in big-endian byte order.
\<close>

definition exifBuffer :: "nat \<Rightarrow> ArrayBuffer" where
  "exifBuffer v =
     [0xFF, 0xD8, 0xFF, 0xE1, 0x00, 0x22, 0x45, 0x78, 0x69, 0x66, 0x00, 0x00,
      0x4D, 0x4D, 0x00, 0x2A, 0x00, 0x00, 0x00, 0x08, 0x00, 0x01,
      0x01, 0x12, 0x00, 0x03, 0x00, 0x00, 0x00, 0x01, of_nat (v div 256), of_nat (v mod 256),
      0x00, 0x00]"





text \<open>
  A browser that decodes every buffer to a bitmap of 4000 by 2000 pixels and encodes
  every canvas to three bytes, and one that cannot decode anything.
\<close>

definition sampleHost :: host where
  "sampleHost =
     \<lparr>createImageBitmap = (\<lambda>buffer. Inr \<lparr>bitmapWidth = 4000, bitmapHeight = 2000, pixels = []\<rparr>),
      getContext = (\<lambda>w ht. True),
      drawImage = (\<lambda>canvas bitmap w ht. Inr []),
      convertToBlob = (\<lambda>canvas surface mime q. Inr [0x01, 0x02, 0x03])\<rparr>"

definition corruptHost :: host where
  "corruptHost =
     sampleHost\<lparr>createImageBitmap :=
       (\<lambda>buffer. Inl (HostError ''The source image could not be decoded.''))\<rparr>"

definition sampleJob :: "string \<Rightarrow> ArrayBuffer \<Rightarrow> ProcessImageMessage" where
  "sampleJob ident buffer =
     \<lparr>msg_id = ident, imageData = buffer, msg_filename = ''photo.jpg'',
      options = \<lparr>quality = 1 / 2, maxWidth = 1920, maxHeight = 1080, format = ''jpeg''\<rparr>\<rparr>"



text \<open>
  Results as the two browsers above produce them, and four runs of the manager: a batch
  of one file whose result is a failure, the same batch with a success, a batch of three
  files on two workers after the first result, and a batch of two files on one worker
  during which a third file is added.
\<close>

definition failureResult :: "string \<Rightarrow> ProcessImageResult" where
  "failureResult ident = processImage corruptHost (sampleJob ident (exifBuffer 6))"

definition successResult :: "string \<Rightarrow> ProcessImageResult" where
  "successResult ident = processImage sampleHost (sampleJob ident (exifBuffer 6))"

definition failedBatch :: "event list" where
  "failedBatch =
     [AddFile ''a'' ''photo.jpg'' (exifBuffer 6), CompressClick,
      ResultArrives 0 (failureResult ''a''), TimerFires]"

definition successfulBatch :: "event list" where
  "successfulBatch =
     [AddFile ''a'' ''photo.jpg'' (exifBuffer 6), CompressClick,
      ResultArrives 0 (successResult ''a''), TimerFires]"

definition busyBatch :: "event list" where
  "busyBatch =
     [AddFile ''a'' ''a.jpg'' (exifBuffer 6), AddFile ''b'' ''b.jpg'' (exifBuffer 6),
      AddFile ''c'' ''c.jpg'' (exifBuffer 6), CompressClick,
      ResultArrives 1 (successResult ''b'')]"

definition runningBatch :: "event list" where
  "runningBatch =
     [AddFile ''a'' ''a.jpg'' (exifBuffer 6), AddFile ''b'' ''b.jpg'' (exifBuffer 6),
      CompressClick, AddFile ''c'' ''c.jpg'' (exifBuffer 6)]"

section \<open>Properties of the orientation decoder\<close>

lemma getUint16_throws: "getUint16 view off le = Inl e \<Longrightarrow> e = RangeError"
  by (simp add: getUint16_def Let_def split: if_splits)

lemma getUint32_throws: "getUint32 view off le = Inl e \<Longrightarrow> e = RangeError"
  by (simp add: getUint32_def Let_def split: if_splits)


lemma tagLoop_result:
  "(tagLoop view le dirStart tagCount i = Inl e \<longrightarrow> e = RangeError) \<and>
   (tagLoop view le dirStart tagCount i = Inr (Some v) \<longrightarrow>
      (\<exists>tagOffset. getUint16 view tagOffset le = Inr 0x0112 \<and>
                   getUint16 view (tagOffset + 8) le = Inr v))"
proof (induction view le dirStart tagCount i rule: tagLoop.induct)
  case (1 view le dirStart tagCount i)
  show ?case
  proof (cases "i < tagCount")
    case False
    then show ?thesis by (simp add: tagLoop.simps [of view le dirStart tagCount i])
  next
    case True
    let ?t = "dirStart + 2 + i * 12"
    show ?thesis
    proof (cases "getUint16 view ?t le")
      case (Inl e')
      with True have "tagLoop view le dirStart tagCount i = Inl e'"
        by (simp add: tagLoop.simps [of view le dirStart tagCount i])
      with Inl show ?thesis by (auto dest: getUint16_throws)
    next
      case (Inr tag)
      show ?thesis
      proof (cases "tag = 0x0112")
        case t: True
        with True Inr
        have eq: "tagLoop view le dirStart tagCount i =
                  (case getUint16 view (?t + 8) le of Inl e \<Rightarrow> Inl e | Inr v \<Rightarrow> Inr (Some v))"
          by (simp add: tagLoop.simps [of view le dirStart tagCount i])
        show ?thesis
        proof (cases "getUint16 view (?t + 8) le")
          case (Inl e')
          with eq show ?thesis by (auto dest: getUint16_throws)
        next
          case r: (Inr v')
          with eq have "tagLoop view le dirStart tagCount i = Inr (Some v')" by simp
          moreover from Inr t have "getUint16 view ?t le = Inr 0x0112" by simp
          ultimately show ?thesis using r by auto
        qed
      next
        case f: False
        with True Inr
        have "tagLoop view le dirStart tagCount i = tagLoop view le dirStart tagCount (i + 1)"
          by (simp add: tagLoop.simps [of view le dirStart tagCount i])
        with "1.IH" [OF True refl Inr f] show ?thesis by simp
      qed
    qed
  qed
qed

lemma exifSegment_result:
  "(exifSegment view offset = Throw e \<longrightarrow> e = RangeError) \<and>
   (exifSegment view offset = Return v \<longrightarrow>
      (\<exists>tagOffset le. getUint16 view tagOffset le = Inr 0x0112 \<and>
                      getUint16 view (tagOffset + 8) le = Inr v)) \<and>
   exifSegment view offset \<noteq> Continue offset'"
  unfolding exifSegment_def Let_def
  using tagLoop_result getUint16_throws getUint32_throws
  by (fastforce split: sum.splits option.splits if_splits)

lemma scanStep_result:
  "(scanStep view offset = Throw e \<longrightarrow> e = RangeError) \<and>
   (scanStep view offset = Return v \<longrightarrow>
      (\<exists>tagOffset le. getUint16 view tagOffset le = Inr 0x0112 \<and>
                      getUint16 view (tagOffset + 8) le = Inr v)) \<and>
   (scanStep view offset = Continue offset' \<longrightarrow> offset + 2 \<le> offset')"
proof (cases "getUint16 view offset False")
  case (Inl e')
  then show ?thesis by (auto simp: scanStep_def dest: getUint16_throws)
next
  case (Inr marker)
  show ?thesis
  proof (cases "marker = 0xFFE1")
    case True
    with Inr have "scanStep view offset = exifSegment view (offset + 2 + 2)"
      by (simp add: scanStep_def)
    then show ?thesis using exifSegment_result [of view "offset + 2 + 2" e v offset'] by simp
  next
    case False
    show ?thesis
    proof (cases "marker AND 0xFF00 \<noteq> 0xFF00")
      case True
      with Inr False have "scanStep view offset = Break" by (simp add: scanStep_def)
      then show ?thesis by simp
    next
      case nb: False
      with Inr False
      have "scanStep view offset =
            (case getUint16 view (offset + 2) False of Inl e \<Rightarrow> Throw e
             | Inr segmentLength \<Rightarrow> Continue (offset + 2 + segmentLength))"
        by (simp add: scanStep_def split: sum.splits)
      then show ?thesis by (auto split: sum.splits dest: getUint16_throws)
    qed
  qed
qed


lemma scan_result:
  "(scan view offset = Inl e \<longrightarrow> e = RangeError) \<and>
   (scan view offset = Inr v \<longrightarrow> v = 1 \<or>
      (\<exists>tagOffset le. getUint16 view tagOffset le = Inr 0x0112 \<and>
                      getUint16 view (tagOffset + 8) le = Inr v))"
proof (induction view offset rule: scan.induct)
  case (1 view offset)
  show ?case
  proof (cases "offset < length view")
    case False
    then show ?thesis by (simp add: scan.simps [of view offset])
  next
    case True
    show ?thesis
    proof (cases "scanStep view offset")
      case (Continue offset')
      with True have "scan view offset = scan view offset'"
        by (simp add: scan.simps [of view offset])
      with "1.IH" [OF True Continue] show ?thesis by simp
    next
      case Break
      with True show ?thesis by (simp add: scan.simps [of view offset])
    next
      case (Return v')
      with True have "scan view offset = Inr v'" by (simp add: scan.simps [of view offset])
      with Return scanStep_result [of view offset e v' 0] show ?thesis by auto
    next
      case (Throw e')
      with True have "scan view offset = Inl e'" by (simp add: scan.simps [of view offset])
      with Throw scanStep_result [of view offset e' v 0] show ?thesis by auto
    qed
  qed
qed

lemma scanFuel_enough:
  "length view - offset \<le> fuel \<Longrightarrow> scanFuel fuel view offset = Some (scan view offset)"
proof (induction view offset arbitrary: fuel rule: scan.induct)
  case (1 view offset)
  show ?case
  proof (cases "offset < length view")
    case False
    then show ?thesis
      by (simp add: scan.simps [of view offset] scanFuel.simps [of fuel view offset])
  next
    case True
    with "1.prems" obtain fuel' where fuel: "fuel = Suc fuel'"
      by (cases fuel) auto
    show ?thesis
    proof (cases "scanStep view offset")
      case (Continue offset')
      with scanStep_result [of view offset RangeError 0 offset']
      have "offset + 2 \<le> offset'" by simp
      with "1.prems" fuel have "length view - offset' \<le> fuel'" by arith
      from "1.IH" [OF True Continue this] True Continue fuel show ?thesis
        by (simp add: scan.simps [of view offset] scanFuel.simps [of "Suc fuel'" view offset])
    next
      case Break
      with True fuel show ?thesis
        by (simp add: scan.simps [of view offset] scanFuel.simps [of "Suc fuel'" view offset])
    next
      case (Return v')
      with True fuel show ?thesis
        by (simp add: scan.simps [of view offset] scanFuel.simps [of "Suc fuel'" view offset])
    next
      case (Throw e')
      with True fuel show ?thesis
        by (simp add: scan.simps [of view offset] scanFuel.simps [of "Suc fuel'" view offset])
    qed
  qed
qed


lemma getImageOrientation_result:
  "(getImageOrientation view = Inl e \<longrightarrow> e = RangeError) \<and>
   (getImageOrientation view = Inr v \<longrightarrow> v = 1 \<or>
      (\<exists>tagOffset le. getUint16 view tagOffset le = Inr 0x0112 \<and>
                      getUint16 view (tagOffset + 8) le = Inr v))"
proof (cases "getUint16 view 0 False")
  case (Inl e')
  then show ?thesis by (auto simp: getImageOrientation_def dest: getUint16_throws)
next
  case (Inr soi)
  show ?thesis
  proof (cases "soi = 0xFFD8")
    case True
    with Inr have "getImageOrientation view = scan view 2"
      by (simp add: getImageOrientation_def)
    with scan_result [of view 2 e v] show ?thesis by simp
  next
    case False
    with Inr show ?thesis by (simp add: getImageOrientation_def)
  qed
qed

text \<open>
  C1, as amended. \<open>getImageOrientation\<close> does not return normally on every buffer: a
  read past the end of the buffer raises \<open>RangeError\<close>, which is the only exception it
  can raise, and it raises it on every buffer of fewer than two bytes. Inside
  \<open>processImage\<close> the exception is caught: once the bytes have been decoded, a
  \<open>RangeError\<close> of the decoder gives a failure result with the id of the job and the
  message of the exception.
\<close>

theorem getImageOrientation_returns_or_raises:
  "(getImageOrientation view = Inl RangeError \<or> (\<exists>v. getImageOrientation view = Inr v)) \<and>
   (length view < 2 \<longrightarrow> getImageOrientation view = Inl RangeError) \<and>
   (createImageBitmap h (imageData data) = Inr bitmap \<and>
    getImageOrientation (imageData data) = Inl RangeError \<longrightarrow>
      res_id (processImage h data) = msg_id data \<and>
      \<not> success (processImage h data) \<and>
      error (processImage h data) = Some (errorMessage RangeError))"
proof (intro conjI impI)
  show "getImageOrientation view = Inl RangeError \<or> (\<exists>v. getImageOrientation view = Inr v)"
  proof (cases "getImageOrientation view")
    case (Inl e)
    with getImageOrientation_result [of view e 0] show ?thesis by simp
  next
    case (Inr v)
    then show ?thesis by simp
  qed
next
  assume "length view < 2"
  then show "getImageOrientation view = Inl RangeError"
    by (simp add: getImageOrientation_def getUint16_def)
next
  assume a: "createImageBitmap h (imageData data) = Inr bitmap \<and>
             getImageOrientation (imageData data) = Inl RangeError"
  then have "processImageTry h data = Inl RangeError"
    by (simp add: processImageTry_def)
  then show "res_id (processImage h data) = msg_id data"
    and "\<not> success (processImage h data)"
    and "error (processImage h data) = Some (errorMessage RangeError)"
    by (simp_all add: processImage_def)
qed


theorem getImageOrientation_returns_or_raises_witness:
  "length ([] :: ArrayBuffer) < 2 \<and>
   createImageBitmap sampleHost (imageData (sampleJob ''a'' [])) =
     Inr \<lparr>bitmapWidth = 4000, bitmapHeight = 2000, pixels = []\<rparr> \<and>
   getImageOrientation (imageData (sampleJob ''a'' [])) = Inl RangeError \<and>
   res_id (processImage sampleHost (sampleJob ''a'' [])) = ''a'' \<and>
   \<not> success (processImage sampleHost (sampleJob ''a'' [])) \<and>
   error (processImage sampleHost (sampleJob ''a'' [])) =
     Some ''Offset is outside the bounds of the DataView''"
proof -
  have h: "createImageBitmap sampleHost (imageData (sampleJob ''a'' [])) =
             Inr \<lparr>bitmapWidth = 4000, bitmapHeight = 2000, pixels = []\<rparr>"
    by (simp add: sampleHost_def sampleJob_def)
  have l: "length ([] :: ArrayBuffer) < 2" by simp
  have g: "getImageOrientation (imageData (sampleJob ''a'' [])) = Inl RangeError"
    using l getImageOrientation_returns_or_raises [of "[]"] by (simp add: sampleJob_def)
  show ?thesis
    using h l g
      getImageOrientation_returns_or_raises
        [of "[]" sampleHost "sampleJob ''a'' []"
            "\<lparr>bitmapWidth = 4000, bitmapHeight = 2000, pixels = []\<rparr>"]
    by (simp add: sampleJob_def errorMessage_def)
qed

text \<open>
  C1 as stated fails: on the empty buffer, and on a buffer cut off after the marker of
  the Exif segment, the decoder raises \<open>RangeError\<close> and returns no default.
\<close>

theorem getImageOrientation_raises_counterexample:
  "getImageOrientation [] = Inl RangeError \<and>
   getImageOrientation [0xFF, 0xD8, 0xFF, 0xE1] = Inl RangeError"
  by (simp add: getImageOrientation_def getUint16_def getUint32_def scan.simps scanStep_def
        exifSegment_def)

























lemmas decoder_eval =
  getImageOrientation_def getUint16_def getUint32_def scan.simps scanStep_def
  exifSegment_def tagLoop.simps Let_def exifBuffer_def



text \<open>
  C8, as amended. The scan ends on every buffer: a pass through the loop that continues
  moves the offset forward by at least 2, and the loop entered at \<open>offset\<close> has ended
  after at most \<open>length view - offset\<close> passes. So \<open>getImageOrientation\<close> always
  completes, either with a value or with \<open>RangeError\<close>.
\<close>

theorem scan_terminates:
  "(scanStep view offset = Continue offset' \<longrightarrow> offset + 2 \<le> offset') \<and>
   scanFuel (length view - offset) view offset = Some (scan view offset) \<and>
   (getImageOrientation view = Inl RangeError \<or> (\<exists>v. getImageOrientation view = Inr v))"
proof (intro conjI)
  show "scanStep view offset = Continue offset' \<longrightarrow> offset + 2 \<le> offset'"
    using scanStep_result [of view offset RangeError 0 offset'] by simp
  show "scanFuel (length view - offset) view offset = Some (scan view offset)"
    by (rule scanFuel_enough) simp
  show "getImageOrientation view = Inl RangeError \<or> (\<exists>v. getImageOrientation view = Inr v)"
  proof (cases "getImageOrientation view")
    case (Inl e)
    with getImageOrientation_result [of view e 0] show ?thesis by simp
  next
    case (Inr v)
    then show ?thesis by simp
  qed
qed

theorem scan_terminates_witness:
  "scanStep [0xFF, 0xD8, 0xFF, 0xE0, 0x00, 0x02, 0x00, 0x00] 2 = Continue 6 \<and>
   (2 :: nat) + 2 \<le> 6 \<and>
   scanFuel (length [0xFF, 0xD8, 0xFF, 0xE0, 0x00, 0x02, 0x00, 0x00 :: byte] - 2)
     [0xFF, 0xD8, 0xFF, 0xE0, 0x00, 0x02, 0x00, 0x00] 2 = Some (Inr 1) \<and>
   getImageOrientation [0xFF, 0xD8, 0xFF, 0xE0, 0x00, 0x02, 0x00, 0x00] = Inr 1"
proof -
  let ?view = "[0xFF, 0xD8, 0xFF, 0xE0, 0x00, 0x02, 0x00, 0x00] :: ArrayBuffer"
  have a: "scanStep ?view 2 = Continue 6"
    by (simp add: scanStep_def getUint16_def)
  have b: "scan ?view 2 = Inr 1"
    by (simp add: scan.simps scanStep_def getUint16_def)
  have c: "getImageOrientation ?view = Inr 1"
    by (simp add: getImageOrientation_def getUint16_def b)
  show ?thesis
    using a b c scan_terminates [of ?view 2 6] by simp
qed

text \<open>
  C8 as stated fails in its last part: on a buffer cut off inside the first marker the
  loop ends by raising \<open>RangeError\<close>, so no value is returned.
\<close>

theorem scan_raises_counterexample:
  "scan [0xFF, 0xD8, 0xFF] 2 = Inl RangeError \<and>
   getImageOrientation [0xFF, 0xD8, 0xFF] = Inl RangeError"
  by (simp add: getImageOrientation_def getUint16_def scan.simps scanStep_def)

section \<open>Properties of \<open>processImage\<close>\<close>

lemma processImageTry_success:
  "processImageTry h data = Inr r \<Longrightarrow>
   success r \<and> res_id r = msg_id data \<and> res_filename r = msg_filename data \<and>
   compressedData r \<noteq> None \<and> error r = None \<and> originalSize r = length (imageData data)"
  unfolding processImageTry_def Let_def
  by (auto split: sum.splits)

lemma processImage_caught:
  "processImageTry h data = Inl e \<Longrightarrow>
   processImage h data =
     \<lparr>res_id = msg_id data, success = False, originalSize = 0, compressedSize = 0,
      originalDimensions = \<lparr>width = 0, height = 0\<rparr>,
      compressedDimensions = \<lparr>width = 0, height = 0\<rparr>,
      compressedData = None, res_filename = msg_filename data,
      error = Some (errorMessage e)\<rparr>"
  by (simp add: processImage_def)

lemma processImage_returned:
  "processImageTry h data = Inr r \<Longrightarrow> processImage h data = r"
  by (simp add: processImage_def)

lemma scaleDimensions_4000_2000: "scaleDimensions 4000 2000 1920 1080 = (1920, 960)"
  by code_simp

lemma scaleDimensions_800_600: "scaleDimensions 800 600 1920 1080 = (800, 600)"
  by (simp add: scaleDimensions_def)

lemma processImageTry_sample:
  "processImageTry sampleHost (sampleJob ident (exifBuffer 6)) =
     Inr \<lparr>res_id = ident, success = True, originalSize = 34, compressedSize = 3,
          originalDimensions = \<lparr>width = 4000, height = 2000\<rparr>,
          compressedDimensions = \<lparr>width = 960, height = 1920\<rparr>,
          compressedData = Some [0x01, 0x02, 0x03], res_filename = ''photo.jpg'',
          error = None\<rparr>"
proof -
  have o: "getImageOrientation (exifBuffer 6) = Inr 6"
    by (simp add: decoder_eval)
  have c: "outputCanvas sampleHost 6 (1920, 960) =
             Inr \<lparr>canvasWidth = 1920, canvasHeight = 960, ctx = Some (0, 1, - 1, 0, 1920, 0)\<rparr>"
    by (simp add: outputCanvas_def displayDimensions_def newOffscreenCanvas_def sampleHost_def
          applyOrientation_def transform_def setWidth_def setHeight_def Let_def)
  have l: "length (exifBuffer 6) = 34" by (simp add: exifBuffer_def)
  have b: "createImageBitmap sampleHost buffer =
             Inr \<lparr>bitmapWidth = 4000, bitmapHeight = 2000, pixels = []\<rparr>" for buffer
    by (simp add: sampleHost_def)
  have d: "drawImage sampleHost canvas bitmap w ht = Inr []" for canvas bitmap w ht
    by (simp add: sampleHost_def)
  have e: "convertToBlob sampleHost canvas surface mime q = Inr [0x01, 0x02, 0x03]"
    for canvas surface mime q
    by (simp add: sampleHost_def)
  show ?thesis
    by (simp add: processImageTry_def sampleJob_def b o c d e l scaleDimensions_4000_2000
          displayDimensions_def Let_def)
qed







text \<open>
  C10. A failure result of \<open>processImage\<close> reports the sizes 0 and 0 and the dimensions
  0 by 0 twice, whatever the bytes of the job were.
\<close>

theorem processImage_failure_fields:
  "\<not> success (processImage h data) \<Longrightarrow>
   originalSize (processImage h data) = 0 \<and>
   compressedSize (processImage h data) = 0 \<and>
   originalDimensions (processImage h data) = \<lparr>width = 0, height = 0\<rparr> \<and>
   compressedDimensions (processImage h data) = \<lparr>width = 0, height = 0\<rparr>"
proof (cases "processImageTry h data")
  case (Inl e)
  then show ?thesis by (simp add: processImage_caught)
next
  case (Inr r)
  assume "\<not> success (processImage h data)"
  with processImageTry_success [OF Inr] Inr show ?thesis
    by (simp add: processImage_returned)
qed

theorem processImage_failure_fields_witness:
  "length (imageData (sampleJob ''a'' (exifBuffer 6))) = 34 \<and>
   \<not> success (processImage corruptHost (sampleJob ''a'' (exifBuffer 6))) \<and>
   originalSize (processImage corruptHost (sampleJob ''a'' (exifBuffer 6))) = 0 \<and>
   compressedSize (processImage corruptHost (sampleJob ''a'' (exifBuffer 6))) = 0 \<and>
   originalDimensions (processImage corruptHost (sampleJob ''a'' (exifBuffer 6))) =
     \<lparr>width = 0, height = 0\<rparr> \<and>
   compressedDimensions (processImage corruptHost (sampleJob ''a'' (exifBuffer 6))) =
     \<lparr>width = 0, height = 0\<rparr>"
proof -
  have l: "length (imageData (sampleJob ''a'' (exifBuffer 6))) = 34"
    by (simp add: sampleJob_def exifBuffer_def)
  have f: "\<not> success (processImage corruptHost (sampleJob ''a'' (exifBuffer 6)))"
    by (simp add: processImage_def processImageTry_def corruptHost_def)
  from l f processImage_failure_fields [OF f] show ?thesis by simp
qed

section \<open>Properties of the dispatch queue manager\<close>

lemma findIdle_Some:
  "findIdle bs = Some w \<Longrightarrow> w < length bs \<and> \<not> bs ! w"
proof (induction bs arbitrary: w)
  case Nil
  then show ?case by simp
next
  case (Cons b bs)
  show ?case
  proof (cases b)
    case False
    with Cons.prems show ?thesis by simp
  next
    case True
    with Cons.prems obtain w' where "findIdle bs = Some w'" and "w = Suc w'"
      by auto
    with Cons.IH [of w'] show ?thesis by simp
  qed
qed

lemma slotInv_initialState: "slotInv (initialState n)"
  by (simp add: slotInv_def initialState_def assigned_def)

lemma slotInv_addFile: "slotInv st \<Longrightarrow> slotInv (addFile ident name originalData st)"
  by (simp add: slotInv_def addFile_def assigned_def)

lemma slotInv_clearAll: "slotInv st \<Longrightarrow> slotInv (clearAll st)"
  by (simp add: slotInv_def clearAll_def assigned_def)

lemma slotInv_processNext:
  assumes "slotInv st"
  shows "slotInv (fst (processNext st))"
proof (cases "processingQueue st = []")
  case True
  with assms show ?thesis by (simp add: processNext_def)
next
  case False
  show ?thesis
  proof (cases "findIdle (workerStatus st)")
    case None
    with False assms show ?thesis by (simp add: processNext_def)
  next
    case (Some a)
    from findIdle_Some [OF Some] assms
    have a: "a < maxWorkers st" and idle: "\<not> workerStatus st ! a"
      by (simp_all add: slotInv_def)
    from assms a idle have empty: "assigned st a = []"
      by (auto simp: slotInv_def)
    then have ib: "inbox st ! a = []" and pd: "filter (\<lambda>p. fst p = a) (pendingSends st) = []"
      by (simp_all add: assigned_def)
    let ?found = "map_of (files st) (hd (processingQueue st)) \<noteq> None"
    let ?st2 = "st\<lparr>processingQueue := tl (processingQueue st),
                   workerStatus := (workerStatus st)[a := True]\<rparr>"
    have st2: "slotInv ?st2"
      using assms a ib pd by (auto simp: slotInv_def assigned_def nth_list_update)
    show ?thesis
    proof (cases ?found)
      case f: False
      with False Some have "fst (processNext st) = ?st2"
        by (simp add: processNext_def Let_def sendImageToWorker_def)
      with st2 show ?thesis by simp
    next
      case t: True
      with False Some have eq: "fst (processNext st) =
          ?st2\<lparr>inbox := (inbox st)[a := (inbox st ! a) @ [hd (processingQueue st)]],
                timers := timers st + 1\<rparr>"
        by (simp add: processNext_def Let_def sendImageToWorker_def)
      have "slotInv (?st2\<lparr>inbox := (inbox st)[a := (inbox st ! a) @ [hd (processingQueue st)]],
                timers := timers st + 1\<rparr>)"
        using assms a ib pd
        by (auto simp: slotInv_def assigned_def nth_list_update)
      with eq show ?thesis by simp
    qed
  qed
qed

lemma slotInv_processNextLoop:
  "slotInv st \<Longrightarrow> slotInv (processNextLoop n st)"
proof (induction n arbitrary: st)
  case 0
  then show ?case by simp
next
  case (Suc n)
  from slotInv_processNext [OF Suc.prems] have s: "slotInv (fst (processNext st))" .
  show ?case
  proof (cases "processNext st")
    case (Pair st' threw)
    with s have "slotInv st'" by simp
    with Pair Suc.IH [of st'] show ?thesis by simp
  qed
qed

lemma slotInv_startCompression:
  assumes "slotInv st"
  shows "slotInv (startCompression st)"
proof (cases "length (files st) = 0 \<or> processing st")
  case True
  with assms show ?thesis by (simp add: startCompression_def)
next
  case False
  let ?st1 = "st\<lparr>processing := True, compressBtnDisabled := True,
                  processingQueue := map fst (files st)\<rparr>"
  from assms have "slotInv ?st1" by (simp add: slotInv_def assigned_def)
  from slotInv_processNextLoop [OF this] False show ?thesis
    by (simp add: startCompression_def Let_def)
qed


lemma slotInv_sendFires:
  assumes "slotInv st" and k: "k < length (pendingSends st)"
    and p: "pendingSends st ! k = (worker, fileId, found)"
  shows "slotInv (fst (sendImageToWorker worker fileId found
           (st\<lparr>pendingSends := take k (pendingSends st) @ drop (Suc k) (pendingSends st)\<rparr>)))"
proof -
  let ?ps = "pendingSends st"
  let ?ps' = "take k ?ps @ drop (Suc k) ?ps"
  have split: "?ps = take k ?ps @ (worker, fileId, found) # drop (Suc k) ?ps"
    using id_take_nth_drop [OF k] p by simp
  have cnt: "length (filter (\<lambda>p. fst p = w) ?ps) =
             length (filter (\<lambda>p. fst p = w) ?ps') + (if worker = w then 1 else 0)" for w
  proof -
    have "length (filter (\<lambda>p. fst p = w) ?ps) =
          length (filter (\<lambda>p. fst p = w) (take k ?ps @ (worker, fileId, found) # drop (Suc k) ?ps))"
      using split by simp
    then show ?thesis by simp
  qed
  have sub: "set ?ps' \<subseteq> set ?ps"
    by (auto dest: in_set_takeD in_set_dropD)
  from k p have "(worker, fileId, found) \<in> set ?ps"
    by (metis nth_mem)
  with assms(1) have wk: "worker < maxWorkers st"
    by (auto simp: slotInv_def)
  show ?thesis
  proof (cases found)
    case False
    then have "fst (sendImageToWorker worker fileId found (st\<lparr>pendingSends := ?ps'\<rparr>)) =
               st\<lparr>pendingSends := ?ps'\<rparr>"
      by (simp add: sendImageToWorker_def)
    moreover have "slotInv (st\<lparr>pendingSends := ?ps'\<rparr>)"
      unfolding slotInv_def assigned_def
    proof (intro conjI allI impI ballI)
      fix w assume w: "w < maxWorkers (st\<lparr>pendingSends := ?ps'\<rparr>)"
      with assms(1) have "length (inbox st ! w) + length (filter (\<lambda>p. fst p = w) ?ps)
                          \<le> (if workerStatus st ! w then 1 else 0)"
        by (simp add: slotInv_def assigned_def)
      with cnt [of w]
      show "length (inbox (st\<lparr>pendingSends := ?ps'\<rparr>) ! w @
                    map (\<lambda>p. fst (snd p))
                      (filter (\<lambda>p. fst p = w) (pendingSends (st\<lparr>pendingSends := ?ps'\<rparr>))))
            \<le> (if workerStatus (st\<lparr>pendingSends := ?ps'\<rparr>) ! w then 1 else 0)"
        by (simp split: if_splits)
    next
      fix p assume "p \<in> set (pendingSends (st\<lparr>pendingSends := ?ps'\<rparr>))"
      with sub have "p \<in> set ?ps" by auto
      with assms(1) show "fst p < maxWorkers (st\<lparr>pendingSends := ?ps'\<rparr>)"
        by (simp add: slotInv_def)
    qed (use assms(1) in \<open>simp_all add: slotInv_def\<close>)
    ultimately show ?thesis by simp
  next
    case True
    let ?st' = "st\<lparr>pendingSends := ?ps',
                   inbox := (inbox st)[worker := (inbox st ! worker) @ [fileId]]\<rparr>"
    from True have eq: "fst (sendImageToWorker worker fileId found (st\<lparr>pendingSends := ?ps'\<rparr>)) = ?st'"
      by (simp add: sendImageToWorker_def)
    have "slotInv ?st'"
      unfolding slotInv_def assigned_def
    proof (intro conjI allI impI ballI)
      fix w assume w: "w < maxWorkers ?st'"
      with assms(1) have old: "length (inbox st ! w) + length (filter (\<lambda>p. fst p = w) ?ps)
                          \<le> (if workerStatus st ! w then 1 else 0)"
        by (simp add: slotInv_def assigned_def)
      from assms(1) have len: "length (inbox st) = maxWorkers st"
        by (simp add: slotInv_def)
      show "length (inbox ?st' ! w @
                    map (\<lambda>p. fst (snd p)) (filter (\<lambda>p. fst p = w) (pendingSends ?st')))
            \<le> (if workerStatus ?st' ! w then 1 else 0)"
      proof (cases "w = worker")
        case True
        with old cnt [of w] wk len show ?thesis by (simp split: if_splits)
      next
        case False
        with old cnt [of w] show ?thesis by (simp split: if_splits)
      qed
    next
      fix p assume "p \<in> set (pendingSends ?st')"
      with sub have "p \<in> set ?ps" by auto
      with assms(1) show "fst p < maxWorkers ?st'"
        by (simp add: slotInv_def)
    qed (use assms(1) in \<open>simp_all add: slotInv_def\<close>)
    with eq show ?thesis by simp
  qed
qed


lemma handleWorkerMessage_shape:
  "maxWorkers (handleWorkerMessage w r st) = maxWorkers st \<and>
   inbox (handleWorkerMessage w r st) = inbox st \<and>
   ((pendingSends (handleWorkerMessage w r st) = pendingSends st \<and>
     workerStatus (handleWorkerMessage w r st) = (workerStatus st)[w := False]) \<or>
    (\<exists>i f. pendingSends (handleWorkerMessage w r st) = pendingSends st @ [(w, i, f)] \<and>
           workerStatus (handleWorkerMessage w r st) = (workerStatus st)[w := True]))"
  unfolding handleWorkerMessage_def Let_def
  by (simp split: option.splits)

lemma slotInv_resultArrives:
  assumes inv: "slotInv st" and w: "w < length (inbox st)"
    and r: "res_id result \<in> set (inbox st ! w)"
  shows "slotInv (handleWorkerMessage w result
           (st\<lparr>inbox := (inbox st)[w := remove1 (res_id result) (inbox st ! w)]\<rparr>))"
proof -
  let ?st0 = "st\<lparr>inbox := (inbox st)[w := remove1 (res_id result) (inbox st ! w)]\<rparr>"
  let ?st' = "handleWorkerMessage w result ?st0"
  from inv w have wm: "w < maxWorkers st" and lw: "length (workerStatus st) = maxWorkers st"
    and li: "length (inbox st) = maxWorkers st"
    by (simp_all add: slotInv_def)
  from inv wm have "length (inbox st ! w) + length (filter (\<lambda>p. fst p = w) (pendingSends st))
                    \<le> (if workerStatus st ! w then 1 else 0)"
    by (simp add: slotInv_def assigned_def)
  then have le1: "length (inbox st ! w) + length (filter (\<lambda>p. fst p = w) (pendingSends st)) \<le> 1"
    by (simp split: if_splits)
  from r have pos: "0 < length (inbox st ! w)"
    by (cases "inbox st ! w") auto
  from le1 pos have one: "length (inbox st ! w) = 1" by arith
  from le1 pos have "length (filter (\<lambda>p. fst p = w) (pendingSends st)) = 0" by arith
  then have none: "filter (\<lambda>p. fst p = w) (pendingSends st) = []" by simp
  from one r have "inbox st ! w = [res_id result]"
    by (cases "inbox st ! w") auto
  then have rm: "remove1 (res_id result) (inbox st ! w) = []" by simp
  have others: "length (inbox st ! v) + length (filter (\<lambda>p. fst p = v) (pendingSends st))
                \<le> (if workerStatus st ! v then 1 else 0)" if "v < maxWorkers st" for v
    using inv that by (simp add: slotInv_def assigned_def)
  have pend: "fst p < maxWorkers st" if "p \<in> set (pendingSends st)" for p
    using inv that by (simp add: slotInv_def)
  note shape = handleWorkerMessage_shape [of w result ?st0]
  from shape have m': "maxWorkers ?st' = maxWorkers st" and i': "inbox ?st' = (inbox st)[w := []]"
    by (simp_all add: rm)
  from shape consider
      (idle) "pendingSends ?st' = pendingSends st" "workerStatus ?st' = (workerStatus st)[w := False]"
    | (busy) i f where "pendingSends ?st' = pendingSends st @ [(w, i, f)]"
                       "workerStatus ?st' = (workerStatus st)[w := True]"
    by auto
  then show ?thesis
  proof cases
    case idle
    show ?thesis
      unfolding slotInv_def assigned_def m' i' idle
    proof (intro conjI allI impI ballI)
      fix v assume v: "v < maxWorkers st"
      show "length ((inbox st)[w := []] ! v @
                    map (\<lambda>p. fst (snd p)) (filter (\<lambda>p. fst p = v) (pendingSends st)))
            \<le> (if (workerStatus st)[w := False] ! v then 1 else 0)"
      proof (cases "v = w")
        case True
        with none wm li lw show ?thesis by simp
      next
        case False
        with others [OF v] show ?thesis by simp
      qed
    qed (use lw li pend in simp_all)
  next
    case busy
    show ?thesis
      unfolding slotInv_def assigned_def m' i' busy
    proof (intro conjI allI impI ballI)
      fix v assume v: "v < maxWorkers st"
      show "length ((inbox st)[w := []] ! v @
                    map (\<lambda>p. fst (snd p)) (filter (\<lambda>p. fst p = v) (pendingSends st @ [(w, i, f)])))
            \<le> (if (workerStatus st)[w := True] ! v then 1 else 0)"
      proof (cases "v = w")
        case True
        with none wm li lw show ?thesis by simp
      next
        case False
        with others [OF v] show ?thesis by simp
      qed
    next
      fix p assume "p \<in> set (pendingSends st @ [(w, i, f)])"
      then have "p \<in> set (pendingSends st) \<or> p = (w, i, f)" by auto
      then show "fst p < maxWorkers st"
      proof
        assume "p \<in> set (pendingSends st)"
        then show ?thesis by (rule pend)
      next
        assume "p = (w, i, f)"
        with wm show ?thesis by simp
      qed
    qed (use lw li in simp_all)
  qed
qed

lemma slotInv_step: "slotInv st \<Longrightarrow> slotInv (step st ev)"
proof (cases ev)
  case (AddFile ident name originalData)
  assume "slotInv st"
  with AddFile show ?thesis by (simp add: step_def slotInv_addFile)
next
  case CompressClick
  assume "slotInv st"
  with CompressClick show ?thesis by (simp add: step_def slotInv_startCompression)
next
  case ClearClick
  assume "slotInv st"
  with ClearClick show ?thesis by (simp add: step_def slotInv_clearAll)
next
  case TimerFires
  assume inv: "slotInv st"
  then have "slotInv (st\<lparr>timers := timers st - 1\<rparr>)"
    by (simp add: slotInv_def assigned_def)
  from slotInv_processNext [OF this] inv TimerFires show ?thesis
    by (simp add: step_def)
next
  case (SendFires k)
  assume inv: "slotInv st"
  show ?thesis
  proof (cases "k < length (pendingSends st)")
    case False
    with inv SendFires show ?thesis by (simp add: step_def)
  next
    case True
    obtain worker fileId found where p: "pendingSends st ! k = (worker, fileId, found)"
      by (cases "pendingSends st ! k") auto
    from slotInv_sendFires [OF inv True p] SendFires True p show ?thesis
      by (simp add: step_def)
  qed
next
  case (ResultArrives w result)
  assume inv: "slotInv st"
  show ?thesis
  proof (cases "w < length (inbox st) \<and> res_id result \<in> set (inbox st ! w)")
    case False
    with inv ResultArrives show ?thesis by (auto simp: step_def)
  next
    case True
    then have "w < length (inbox st)" and "res_id result \<in> set (inbox st ! w)" by simp_all
    from slotInv_resultArrives [OF inv this] ResultArrives True show ?thesis
      by (simp add: step_def)
  qed
qed

lemma slotInv_run: "slotInv st \<Longrightarrow> slotInv (run evs st)"
  unfolding run_def
  by (induction evs arbitrary: st) (simp_all add: slotInv_step)

lemma maxWorkers_step: "maxWorkers (step st ev) = maxWorkers st"
proof -
  have pn: "maxWorkers (fst (processNext s)) = maxWorkers s" for s
    by (simp add: processNext_def sendImageToWorker_def Let_def split: option.splits)
  have pl: "maxWorkers (processNextLoop n s) = maxWorkers s" for n s
  proof (induction n arbitrary: s)
    case 0
    show ?case by simp
  next
    case (Suc n)
    from pn [of s] Suc.IH show ?case by (cases "processNext s") auto
  qed
  show ?thesis
    by (cases ev)
       (auto simp: step_def addFile_def startCompression_def clearAll_def pn pl Let_def
             sendImageToWorker_def handleWorkerMessage_shape split: prod.splits)
qed

lemma maxWorkers_run: "maxWorkers (run evs st) = maxWorkers st"
  unfolding run_def
  by (induction evs arbitrary: st) (simp_all add: maxWorkers_step)


lemma failureResult_eval:
  "failureResult ident =
     \<lparr>res_id = ident, success = False, originalSize = 0, compressedSize = 0,
      originalDimensions = \<lparr>width = 0, height = 0\<rparr>,
      compressedDimensions = \<lparr>width = 0, height = 0\<rparr>,
      compressedData = None, res_filename = ''photo.jpg'',
      error = Some ''The source image could not be decoded.''\<rparr>"
  by (simp add: failureResult_def processImage_def processImageTry_def corruptHost_def
        sampleJob_def errorMessage_def)

lemma successResult_eval:
  "successResult ident =
     \<lparr>res_id = ident, success = True, originalSize = 34, compressedSize = 3,
      originalDimensions = \<lparr>width = 4000, height = 2000\<rparr>,
      compressedDimensions = \<lparr>width = 960, height = 1920\<rparr>,
      compressedData = Some [0x01, 0x02, 0x03], res_filename = ''photo.jpg'',
      error = None\<rparr>"
  by (simp add: successResult_def processImage_def processImageTry_sample)

lemmas manager_eval =
  run_def step_def addFile_def startCompression_def processNext_def sendImageToWorker_def
  handleWorkerMessage_def initialState_def clearAll_def Let_def eval_nat_numeral
  busyCount_def assigned_def completedCount_def

lemma failedBatch_eval:
  "processing (run failedBatch (initialState 1)) \<and>
   compressBtnDisabled (run failedBatch (initialState 1)) \<and>
   completedCount (run failedBatch (initialState 1)) = 0 \<and>
   map fst (files (run failedBatch (initialState 1))) = [''a''] \<and>
   processingQueue (run failedBatch (initialState 1)) = [] \<and>
   inbox (run failedBatch (initialState 1)) = [[]] \<and>
   pendingSends (run failedBatch (initialState 1)) = [] \<and>
   timers (run failedBatch (initialState 1)) = 0 \<and>
   workerStatus (run failedBatch (initialState 1)) = [False]"
  by (simp add: failedBatch_def failureResult_eval manager_eval)

lemma successfulBatch_eval:
  "\<not> processing (run successfulBatch (initialState 1)) \<and>
   \<not> compressBtnDisabled (run successfulBatch (initialState 1)) \<and>
   completedCount (run successfulBatch (initialState 1)) = 1"
  by (simp add: successfulBatch_def successResult_eval manager_eval)

lemma busyBatch_eval:
  "busyCount (run busyBatch (initialState 2)) = 2 \<and>
   maxWorkers (run busyBatch (initialState 2)) = 2 \<and>
   assigned (run busyBatch (initialState 2)) 0 = [''a''] \<and>
   assigned (run busyBatch (initialState 2)) 1 = [''c''] \<and>
   workerStatus (run busyBatch (initialState 2)) = [True, True] \<and>
   processingQueue (run busyBatch (initialState 2)) = []"
  by (simp add: busyBatch_def successResult_eval manager_eval)

lemma runningBatch_eval:
  "processing (run runningBatch (initialState 1)) \<and>
   map fst (files (run runningBatch (initialState 1))) = [''a'', ''b'', ''c''] \<and>
   processingQueue (run runningBatch (initialState 1)) = [''b''] \<and>
   inbox (run runningBatch (initialState 1)) = [[''a'']]"
  by (simp add: runningBatch_def manager_eval)


text \<open>
  C2 at a failing input. One worker, one file, and the only result of the batch is a
  failure: \<open>handleWorkerMessage\<close> counts the files whose \<open>processed\<close> flag is set, a
  failed file never gets the flag, and the count stays at 0 of 1. After the result and the
  last timer nothing is queued, posted or pending, every slot is idle, and the manager
  is still processing with the compress button disabled. The same batch with a success
  as its result ends with the count at 1 of 1, not processing, the button enabled.
\<close>

theorem failed_result_keeps_processing:
  "processing (run failedBatch (initialState 1)) \<and>
   compressBtnDisabled (run failedBatch (initialState 1)) \<and>
   completedCount (run failedBatch (initialState 1)) = 0 \<and>
   map fst (files (run failedBatch (initialState 1))) = [''a''] \<and>
   processingQueue (run failedBatch (initialState 1)) = [] \<and>
   inbox (run failedBatch (initialState 1)) = [[]] \<and>
   pendingSends (run failedBatch (initialState 1)) = [] \<and>
   timers (run failedBatch (initialState 1)) = 0 \<and>
   workerStatus (run failedBatch (initialState 1)) = [False] \<and>
   \<not> processing (run successfulBatch (initialState 1)) \<and>
   \<not> compressBtnDisabled (run successfulBatch (initialState 1)) \<and>
   completedCount (run successfulBatch (initialState 1)) = 1"
  using failedBatch_eval successfulBatch_eval by simp

text \<open>
  C6. From the state after the constructor with \<open>n\<close> workers, after any sequence of
  added files, clicks, timeouts and delivered results (successes or failures), the
  number of slots marked busy is at most the size of the pool, which stays \<open>n\<close>, and
  every worker has at most one job with it or on its way to it, and none unless its slot
  is marked busy.
\<close>

theorem busy_slots_bounded:
  "busyCount (run evs (initialState n)) \<le> maxWorkers (run evs (initialState n)) \<and>
   maxWorkers (run evs (initialState n)) = n \<and>
   (\<forall>w < n. length (assigned (run evs (initialState n)) w) \<le> 1 \<and>
            (assigned (run evs (initialState n)) w \<noteq> [] \<longrightarrow>
               workerStatus (run evs (initialState n)) ! w))"
proof -
  let ?st = "run evs (initialState n)"
  have inv: "slotInv ?st"
    by (rule slotInv_run) (rule slotInv_initialState)
  have m: "maxWorkers ?st = n"
    by (simp add: maxWorkers_run initialState_def)
  from inv m have len: "length (workerStatus ?st) = n"
    by (simp add: slotInv_def)
  have "busyCount ?st \<le> length (workerStatus ?st)"
    unfolding busyCount_def by (rule length_filter_le)
  with len m have busy: "busyCount ?st \<le> maxWorkers ?st" by simp
  have slots: "length (assigned ?st w) \<le> 1 \<and> (assigned ?st w \<noteq> [] \<longrightarrow> workerStatus ?st ! w)"
    if "w < n" for w
  proof -
    from inv m that have "length (assigned ?st w) \<le> (if workerStatus ?st ! w then 1 else 0)"
      by (simp add: slotInv_def)
    then show ?thesis by (cases "workerStatus ?st ! w") auto
  qed
  from busy m slots show ?thesis by blast
qed

theorem busy_slots_bounded_witness:
  "(1 :: nat) < 2 \<and>
   assigned (run busyBatch (initialState 2)) 1 = [''c''] \<and>
   assigned (run busyBatch (initialState 2)) 1 \<noteq> [] \<and>
   workerStatus (run busyBatch (initialState 2)) ! 1 \<and>
   busyCount (run busyBatch (initialState 2)) = 2 \<and>
   busyCount (run busyBatch (initialState 2)) \<le> maxWorkers (run busyBatch (initialState 2)) \<and>
   length (assigned (run busyBatch (initialState 2)) 1) \<le> 1"
proof -
  have w: "(1 :: nat) < 2" by simp
  note e = busyBatch_eval
  from e have a: "assigned (run busyBatch (initialState 2)) 1 \<noteq> []" by simp
  from w a e busy_slots_bounded [of busyBatch 2] show ?thesis by simp
qed

text \<open>
  C9, as amended. \<open>startCompression\<close> called while the manager is processing returns at
  once and leaves the state as it is: the pending queue is not extended, files added
  since the batch began are not enqueued, and no second batch is started.
\<close>

theorem startCompression_while_processing:
  "processing st \<Longrightarrow> startCompression st = st"
  by (simp add: startCompression_def)

theorem startCompression_while_processing_witness:
  "processing (run runningBatch (initialState 1)) \<and>
   startCompression (run runningBatch (initialState 1)) = run runningBatch (initialState 1)"
proof -
  have p: "processing (run runningBatch (initialState 1))"
    using runningBatch_eval by simp
  from p startCompression_while_processing [OF p] show ?thesis by simp
qed

text \<open>
  C9 as stated fails: with \<open>a\<close> at the worker and \<open>b\<close> queued, the file \<open>c\<close> is added
  and compression is started again; the queue is still \<open>b\<close> alone, and \<open>c\<close> is in no
  inbox.
\<close>

theorem startCompression_appends_counterexample:
  "processing (run runningBatch (initialState 1)) \<and>
   map fst (files (run runningBatch (initialState 1))) = [''a'', ''b'', ''c''] \<and>
   processingQueue (run runningBatch (initialState 1)) = [''b''] \<and>
   processingQueue (startCompression (run runningBatch (initialState 1))) = [''b''] \<and>
   processingQueue (step (run runningBatch (initialState 1)) CompressClick) = [''b''] \<and>
   inbox (startCompression (run runningBatch (initialState 1))) = [[''a'']]"
proof -
  note e = runningBatch_eval
  then have p: "processing (run runningBatch (initialState 1))" by simp
  then have s: "startCompression (run runningBatch (initialState 1)) =
                run runningBatch (initialState 1)"
    by (simp add: startCompression_def)
  then have c: "step (run runningBatch (initialState 1)) CompressClick =
                run runningBatch (initialState 1)"
    by (simp add: step_def)
  from e s c show ?thesis by simp
qed

section \<open>The rounding error of double precision\<close>

lemma pow2_powi: "pow2 e = 2 powi e"
  by (simp add: pow2_def power_int_def inverse_eq_divide power_one_over)

lemma pow2_pos: "0 < pow2 e"
  by (simp add: pow2_powi)

lemma pow2_shift: "pow2 (e - 52) = pow2 e / 2 ^ 52"
proof -
  have "(2 :: rat) powi (e - 52) = 2 powi e / 2 powi 52"
    by (rule power_int_diff) simp
  then show ?thesis by (simp add: pow2_powi)
qed

lemma bitLength_bounds:
  "0 \<le> n \<Longrightarrow> n < 2 ^ nat (bitLength n) \<and> (0 < n \<longrightarrow> 1 \<le> bitLength n \<and> 2 ^ nat (bitLength n - 1) \<le> n)"
proof (induction n rule: bitLength.induct)
  case (1 n)
  show ?case
  proof (cases "n \<le> 0")
    case True
    with "1.prems" show ?thesis by (simp add: bitLength.simps [of n])
  next
    case False
    then have pos: "0 < n" by simp
    let ?k = "bitLength (n div 2)"
    have bl: "bitLength n = 1 + ?k"
      using False by (simp add: bitLength.simps [of n])
    from pos have "0 \<le> n div 2" by simp
    from "1.IH" [OF False this]
    have up: "n div 2 < 2 ^ nat ?k"
      and lo: "0 < n div 2 \<longrightarrow> 1 \<le> ?k \<and> 2 ^ nat (?k - 1) \<le> n div 2"
      by simp_all
    have k0: "0 \<le> ?k"
    proof (cases "0 < n div 2")
      case True
      with lo show ?thesis by simp
    next
      case False
      then show ?thesis by (simp add: bitLength.simps [of "n div 2"])
    qed
    then have nk: "nat (1 + ?k) = Suc (nat ?k)" by simp
    from up have "n < 2 * 2 ^ nat ?k" by simp
    then have upper: "n < 2 ^ nat (bitLength n)" by (simp add: bl nk)
    have lower: "2 ^ nat (bitLength n - 1) \<le> n"
    proof (cases "0 < n div 2")
      case True
      with lo have k1: "1 \<le> ?k" and l: "2 ^ nat (?k - 1) \<le> n div 2" by simp_all
      from k1 have "nat ?k = Suc (nat (?k - 1))" by simp
      then have "(2 :: int) ^ nat ?k = 2 * 2 ^ nat (?k - 1)" by simp
      also from l have "\<dots> \<le> 2 * (n div 2)" by simp
      also have "\<dots> \<le> n" by simp
      finally show ?thesis by (simp add: bl)
    next
      case False
      with pos have "n div 2 = 0" by simp
      then have "?k = 0" by (simp add: bitLength.simps [of 0])
      with bl pos show ?thesis by simp
    qed
    from upper lower k0 bl show ?thesis by simp
  qed
qed


lemma binade_le:
  assumes "0 < x"
  shows "pow2 (binade x) \<le> x"
proof (cases "1 \<le> x")
  case True
  let ?n = "\<lfloor>x\<rfloor>"
  from True have n: "0 < ?n" by simp
  then have n0: "0 \<le> ?n" by (rule less_imp_le)
  from bitLength_bounds [OF n0] n
  have k: "1 \<le> bitLength ?n" and l: "2 ^ nat (bitLength ?n - 1) \<le> ?n"
    by blast+
  from l have "(of_int (2 ^ nat (bitLength ?n - 1)) :: rat) \<le> of_int ?n"
    by (simp only: of_int_le_iff)
  then have "(2 :: rat) ^ nat (bitLength ?n - 1) \<le> of_int ?n" by simp
  also have "\<dots> \<le> x" by (rule of_int_floor_le)
  finally have "(2 :: rat) ^ nat (bitLength ?n - 1) \<le> x" .
  with True k show ?thesis by (simp add: binade_def pow2_def)
next
  case False
  let ?n = "\<lceil>1 / x\<rceil> - 1"
  let ?k = "bitLength ?n"
  from False assms have "1 < 1 / x" by simp
  then have "1 < \<lceil>1 / x\<rceil>" by (simp add: less_ceiling_iff)
  then have n: "0 < ?n" by simp
  then have n0: "0 \<le> ?n" by (rule less_imp_le)
  from bitLength_bounds [OF n0] n have k: "1 \<le> ?k" and u: "?n < 2 ^ nat ?k"
    by blast+
  from u have "\<lceil>1 / x\<rceil> \<le> 2 ^ nat ?k" by simp
  then have "(of_int \<lceil>1 / x\<rceil> :: rat) \<le> of_int (2 ^ nat ?k)"
    by (simp only: of_int_le_iff)
  then have c2: "(of_int \<lceil>1 / x\<rceil> :: rat) \<le> 2 ^ nat ?k" by simp
  have c1: "1 / x \<le> of_int \<lceil>1 / x\<rceil>" by (rule le_of_int_ceiling)
  from c1 c2 have "1 / x \<le> 2 ^ nat ?k" by (rule order_trans)
  with assms have "1 \<le> 2 ^ nat ?k * x"
    by (simp add: pos_divide_le_eq)
  then have "1 / 2 ^ nat ?k \<le> x"
    by (simp add: pos_divide_le_eq mult.commute)
  with False k show ?thesis by (simp add: binade_def pow2_def)
qed

lemma roundTiesToEven_error: "\<bar>of_int (roundTiesToEven m) - m\<bar> \<le> 1 / 2"
proof -
  let ?n = "\<lfloor>m\<rfloor>"
  let ?d = "m - of_int ?n"
  have d0: "0 \<le> ?d" by simp
  have d1: "?d < 1" using floor_correct [of m] by simp
  consider "?d < 1 / 2" | "1 / 2 < ?d" | "?d = 1 / 2" by linarith
  then show ?thesis
  proof cases
    case 1
    then have "roundTiesToEven m = ?n" by (simp add: roundTiesToEven_def Let_def)
    with 1 d0 show ?thesis by (simp add: abs_le_iff)
  next
    case 2
    then have "roundTiesToEven m = ?n + 1" by (simp add: roundTiesToEven_def Let_def)
    with 2 d1 show ?thesis by (simp add: abs_le_iff)
  next
    case 3
    then have "roundTiesToEven m = ?n \<or> roundTiesToEven m = ?n + 1"
      by (simp add: roundTiesToEven_def Let_def)
    with 3 show ?thesis by (auto simp: abs_le_iff)
  qed
qed

lemma roundToDouble_error:
  assumes "0 < x"
  shows "\<bar>roundToDouble x - x\<bar> \<le> x / 2 ^ 53"
proof -
  let ?ulp = "pow2 (binade x - 52)"
  have ulp: "?ulp = pow2 (binade x) / 2 ^ 52" by (rule pow2_shift)
  have up: "0 < ?ulp" by (rule pow2_pos)
  let ?m = "roundTiesToEven (x / ?ulp)"
  from assms have r: "roundToDouble x = of_int ?m * ?ulp"
    by (simp add: roundToDouble_def Let_def)
  from up have "of_int ?m * ?ulp - x = (of_int ?m - x / ?ulp) * ?ulp"
    by (simp add: field_simps)
  then have "\<bar>of_int ?m * ?ulp - x\<bar> = \<bar>of_int ?m - x / ?ulp\<bar> * ?ulp"
    using up by (simp add: abs_mult)
  also have "\<dots> \<le> 1 / 2 * ?ulp"
    using roundTiesToEven_error [of "x / ?ulp"] up by (simp add: mult_right_mono)
  also have "\<dots> = pow2 (binade x) / 2 ^ 53" by (simp add: ulp)
  also have "\<dots> \<le> x / 2 ^ 53"
    using binade_le [OF assms] by (simp add: divide_right_mono)
  finally show ?thesis by (simp add: r)
qed


lemma Math_min_error:
  fixes a b :: rat
  assumes a: "0 < a" and b: "0 < b" and u: "0 \<le> u" "u \<le> 1"
    and ea: "\<bar>a' - a\<bar> \<le> a * u" and eb: "\<bar>b' - b\<bar> \<le> b * u"
  shows "\<bar>Math_min a' b' - min a b\<bar> \<le> min a b * u"
proof -
  have m: "Math_min a' b' = min a' b'" by (simp add: Math_min_def min_def)
  from ea have a1: "a - a * u \<le> a'" and a2: "a' \<le> a + a * u" by (simp_all add: abs_le_iff)
  from eb have b1: "b - b * u \<le> b'" and b2: "b' \<le> b + b * u" by (simp_all add: abs_le_iff)
  show ?thesis
  proof (cases "a \<le> b")
    case True
    from True u have "a * (1 - u) \<le> b * (1 - u)" by (simp add: mult_right_mono)
    then have "a - a * u \<le> b - b * u" by (simp add: algebra_simps)
    with a1 b1 have lo: "a - a * u \<le> min a' b'" by simp
    from a2 have hi: "min a' b' \<le> a + a * u" by simp
    from True lo hi show ?thesis by (simp add: m abs_le_iff min_def)
  next
    case False
    then have ba: "b \<le> a" by simp
    from ba u have "b * (1 - u) \<le> a * (1 - u)" by (simp add: mult_right_mono)
    then have "b - b * u \<le> a - a * u" by (simp add: algebra_simps)
    with a1 b1 have lo: "b - b * u \<le> min a' b'" by simp
    from b2 have hi: "min a' b' \<le> b + b * u" by simp
    from False lo hi show ?thesis by (simp add: m abs_le_iff min_def)
  qed
qed

lemma nearest_of_close:
  fixes x p eps :: rat
  assumes D: "0 < D" and M: "2 * x * of_int D = of_int M"
    and close: "\<bar>p - x\<bar> \<le> eps" and small: "2 * eps * of_int D < 1"
  shows "\<bar>of_int (Math_round p) - x\<bar> \<le> 1 / 2"
proof -
  let ?n = "Math_round p"
  have n1: "of_int ?n \<le> p + 1 / 2"
    unfolding Math_round_def by (rule of_int_floor_le)
  have n2: "p + 1 / 2 < of_int ?n + 1"
    unfolding Math_round_def using floor_correct [of "p + 1 / 2"] by simp
  from close have c1: "x \<le> p + eps" and c2: "p \<le> x + eps" by (simp_all add: abs_le_iff)
  from D have Dr: "(0 :: rat) < of_int D" by simp
  have hi: "x \<le> of_int ?n + 1 / 2"
  proof (rule ccontr)
    assume "\<not> x \<le> of_int ?n + 1 / 2"
    then have gt: "of_int ?n + 1 / 2 < x" by simp
    with Dr have "(of_int ?n + 1 / 2) * of_int D < x * of_int D"
      by (simp add: mult_strict_right_mono)
    then have "(of_int ((2 * ?n + 1) * D) :: rat) < of_int M"
      using M by (simp add: algebra_simps)
    then have "(2 * ?n + 1) * D < M" by (simp only: of_int_less_iff)
    then have "(2 * ?n + 1) * D + 1 \<le> M" by simp
    then have "(of_int ((2 * ?n + 1) * D + 1) :: rat) \<le> of_int M" by (simp only: of_int_le_iff)
    then have "(2 * of_int ?n + 1) * of_int D + 1 \<le> 2 * x * of_int D"
      using M by simp
    moreover from gt c1 n2 have "x - (of_int ?n + 1 / 2) < eps" by linarith
    then have "(x - (of_int ?n + 1 / 2)) * of_int D < eps * of_int D"
      using Dr by (simp add: mult_strict_right_mono)
    then have "2 * x * of_int D - (2 * of_int ?n + 1) * of_int D < 2 * eps * of_int D"
      by (simp add: algebra_simps)
    ultimately show False using small by linarith
  qed
  have lo: "of_int ?n - 1 / 2 \<le> x"
  proof (rule ccontr)
    assume "\<not> of_int ?n - 1 / 2 \<le> x"
    then have lt: "x < of_int ?n - 1 / 2" by simp
    with Dr have "x * of_int D < (of_int ?n - 1 / 2) * of_int D"
      by (simp add: mult_strict_right_mono)
    then have "(of_int M :: rat) < of_int ((2 * ?n - 1) * D)"
      using M by (simp add: algebra_simps)
    then have "M < (2 * ?n - 1) * D" by (simp only: of_int_less_iff)
    then have "M + 1 \<le> (2 * ?n - 1) * D" by simp
    then have "(of_int (M + 1) :: rat) \<le> of_int ((2 * ?n - 1) * D)" by (simp only: of_int_le_iff)
    then have "2 * x * of_int D + 1 \<le> (2 * of_int ?n - 1) * of_int D"
      using M by simp
    moreover from lt c2 n1 have "(of_int ?n - 1 / 2) - x \<le> eps" by linarith
    then have "((of_int ?n - 1 / 2) - x) * of_int D \<le> eps * of_int D"
      using Dr by (simp add: mult_right_mono)
    then have "(2 * of_int ?n - 1) * of_int D - 2 * x * of_int D \<le> 2 * eps * of_int D"
      by (simp add: algebra_simps)
    ultimately show False using small by linarith
  qed
  from lo hi have "of_int ?n - x \<le> 1 / 2 \<and> - (of_int ?n - x) \<le> 1 / 2" by linarith
  then show ?thesis by (rule abs_le_iff [THEN iffD2])
qed


text \<open>
  The product of line 123 (or 124) with a rounding of relative error \<open>u\<close>: \<open>s\<close> is
  the side that is scaled, \<open>a\<close> and \<open>b\<close> are the two exact quotients.
\<close>

lemma scaled_product_error_rel:
  fixes s a b u :: rat
  assumes s: "0 < s" and a: "0 < a" and b: "0 < b" and u: "0 \<le> u" "u < 1"
    and rnd: "\<And>x. 0 < x \<Longrightarrow> \<bar>roundToDouble x - x\<bar> \<le> x * u"
  shows "\<bar>jsMul s (Math_min (roundToDouble a) (roundToDouble b)) - s * min a b\<bar>
         \<le> 3 * (s * min a b) * u"
proof -
  define r where "r = min a b"
  define f where "f = Math_min (roundToDouble a) (roundToDouble b)"
  define x where "x = s * r"
  define p where "p = jsMul s f"
  from u have u1: "u \<le> 1" by simp
  from a b have r: "0 < r" by (simp add: r_def)
  from Math_min_error [OF a b u(1) u1 rnd [OF a] rnd [OF b]]
  have ef: "\<bar>f - r\<bar> \<le> r * u" by (simp only: r_def f_def)
  then have f1: "r - r * u \<le> f" and f2: "f \<le> r + r * u"
    by (simp_all add: abs_le_iff)
  from r u have "r * u < r * 1" by (intro mult_strict_left_mono) simp_all
  with f1 have f: "0 < f" by simp
  with s have sf: "0 < s * f" by simp
  from rnd [OF sf] have ep: "\<bar>p - s * f\<bar> \<le> s * f * u"
    by (simp add: jsMul_def p_def)
  from s r have x: "0 < x" by (simp add: x_def)
  from f1 s have "s * (r - r * u) \<le> s * f" by (intro mult_left_mono) simp_all
  then have g1: "x - x * u \<le> s * f" by (simp add: algebra_simps x_def)
  from f2 s have "s * f \<le> s * (r + r * u)" by (intro mult_left_mono) simp_all
  then have g2: "s * f \<le> x + x * u" by (simp add: algebra_simps x_def)
  from g2 u(1) have "s * f * u \<le> (x + x * u) * u"
    by (rule mult_right_mono)
  also have "\<dots> \<le> (x + x * 1) * u"
    using x u by (intro mult_right_mono add_left_mono mult_left_mono) simp_all
  finally have h: "s * f * u \<le> 2 * x * u" by simp
  from ep have p1: "s * f - s * f * u \<le> p" and p2: "p \<le> s * f + s * f * u"
    by (simp_all add: abs_le_iff)
  from p1 p2 g1 g2 h
  have "p - x \<le> 3 * x * u \<and> - (p - x) \<le> 3 * x * u"
    by linarith
  then have "\<bar>p - x\<bar> \<le> 3 * x * u" by (rule abs_le_iff [THEN iffD2])
  then show ?thesis by (simp only: p_def x_def f_def r_def)
qed

lemma scaled_product_error:
  fixes s a b B :: rat
  assumes s: "0 < s" and a: "0 < a" and b: "0 < b" and B: "s * min a b \<le> B"
  shows "\<bar>jsMul s (Math_min (roundToDouble a) (roundToDouble b)) - s * min a b\<bar>
         \<le> 3 * B * (1 / 2 ^ 53)"
proof -
  have rnd: "\<bar>roundToDouble x - x\<bar> \<le> x * (1 / 2 ^ 53)" if "0 < x" for x
    using roundToDouble_error [OF that] by (simp only: times_divide_eq_right mult_1_right)
  have "\<bar>jsMul s (Math_min (roundToDouble a) (roundToDouble b)) - s * min a b\<bar>
        \<le> 3 * (s * min a b) * (1 / 2 ^ 53)"
    by (rule scaled_product_error_rel [OF s a b _ _ rnd]) simp_all
  also from B have "\<dots> \<le> 3 * B * (1 / 2 ^ 53)"
    by (intro mult_right_mono mult_left_mono) simp_all
  finally show ?thesis .
qed


lemma scaled_side_nearest:
  fixes w ht mw mh side D M :: int
  assumes pos: "0 < w" "0 < ht" "0 < mw" "0 < mh" "0 < side"
    and D: "0 < D" "D < 2 ^ 24"
    and bound: "of_int side * min (of_int mw / of_int w) (of_int mh / of_int ht) \<le> (2 ^ 24 :: rat)"
    and M: "2 * (of_int side * min (of_int mw / of_int w) (of_int mh / of_int ht)) * of_int D
            = (of_int M :: rat)"
  shows "\<bar>of_int (Math_round (jsMul (of_int side)
             (Math_min (jsDiv (of_int mw) (of_int w)) (jsDiv (of_int mh) (of_int ht)))))
          - of_int side * min (of_int mw / of_int w) (of_int mh / of_int ht)\<bar> \<le> (1 / 2 :: rat)"
proof -
  define a :: rat where "a = of_int mw / of_int w"
  define b :: rat where "b = of_int mh / of_int ht"
  define x :: rat where "x = of_int side * min a b"
  define p where "p = jsMul (of_int side) (Math_min (roundToDouble a) (roundToDouble b))"
  define eps :: rat where "eps = 3 * 2 ^ 24 * (1 / 2 ^ 53)"
  from pos have a: "0 < a" and b: "0 < b" and s: "(0 :: rat) < of_int side"
    by (simp_all add: a_def b_def)
  from bound have B: "of_int side * min a b \<le> 2 ^ 24" by (simp only: a_def b_def)
  from scaled_product_error [OF s a b B] have close: "\<bar>p - x\<bar> \<le> eps"
    by (simp only: p_def x_def eps_def)
  from M have M': "2 * x * of_int D = of_int M" by (simp only: x_def a_def b_def)
  from D(2) have "(of_int D :: rat) < of_int (2 ^ 24)" by (simp only: of_int_less_iff)
  then have Dr: "(of_int D :: rat) < 2 ^ 24" by simp
  have "2 * eps * of_int D \<le> 2 * eps * 2 ^ 24"
    using Dr by (intro mult_left_mono) (simp_all add: eps_def)
  also have "\<dots> < 1" by (simp add: eps_def)
  finally have small: "2 * eps * of_int D < 1" .
  from nearest_of_close [OF D(1) M' close small]
  have "\<bar>of_int (Math_round p) - x\<bar> \<le> 1 / 2" .
  then show ?thesis by (simp only: p_def x_def a_def b_def jsDiv_def)
qed

lemma scaleDimensions_nearest:
  fixes w ht mw mh :: int
  assumes pos: "0 < w" "0 < ht" "0 < mw" "0 < mh"
    and small: "w < 2 ^ 24" "ht < 2 ^ 24" "mw < 2 ^ 24" "mh < 2 ^ 24"
    and over: "w > mw \<or> ht > mh"
  shows "\<bar>of_int (fst (scaleDimensions w ht mw mh))
          - of_int w * min (of_int mw / of_int w) (of_int mh / of_int ht)\<bar> \<le> (1 / 2 :: rat)"
    and "\<bar>of_int (snd (scaleDimensions w ht mw mh))
          - of_int ht * min (of_int mw / of_int w) (of_int mh / of_int ht)\<bar> \<le> (1 / 2 :: rat)"
proof -
  define a :: rat where "a = of_int mw / of_int w"
  define b :: rat where "b = of_int mh / of_int ht"
  from pos have wr: "(0 :: rat) < of_int w" and hr: "(0 :: rat) < of_int ht" by simp_all
  have ab: "a \<le> b \<longleftrightarrow> mw * ht \<le> mh * w"
  proof -
    have "a \<le> b \<longleftrightarrow> (of_int mw :: rat) * of_int ht \<le> of_int mh * of_int w"
      unfolding a_def b_def using wr hr by (simp add: field_simps)
    also have "\<dots> \<longleftrightarrow> (of_int (mw * ht) :: rat) \<le> of_int (mh * w)" by simp
    also have "\<dots> \<longleftrightarrow> mw * ht \<le> mh * w" by (simp only: of_int_le_iff)
    finally show ?thesis .
  qed
  have wa: "of_int w * a = (of_int mw :: rat)" and hb: "of_int ht * b = (of_int mh :: rat)"
    using wr hr by (simp_all add: a_def b_def)
  have wb: "of_int w * b * of_int ht = (of_int (w * mh) :: rat)"
    and ha: "of_int ht * a * of_int w = (of_int (ht * mw) :: rat)"
    using wr hr by (simp_all add: a_def b_def)
  have mwr: "(of_int mw :: rat) \<le> 2 ^ 24" and mhr: "(of_int mh :: rat) \<le> 2 ^ 24"
  proof -
    from small(3) have "(of_int mw :: rat) < of_int (2 ^ 24)" by (simp only: of_int_less_iff)
    then show "(of_int mw :: rat) \<le> 2 ^ 24" by simp
    from small(4) have "(of_int mh :: rat) < of_int (2 ^ 24)" by (simp only: of_int_less_iff)
    then show "(of_int mh :: rat) \<le> 2 ^ 24" by simp
  qed
  have bw: "of_int w * min a b \<le> (2 ^ 24 :: rat)"
  proof -
    have "of_int w * min a b \<le> of_int w * a" using wr by (intro mult_left_mono) simp_all
    with wa mwr show ?thesis by simp
  qed
  have bh: "of_int ht * min a b \<le> (2 ^ 24 :: rat)"
  proof -
    have "of_int ht * min a b \<le> of_int ht * b" using hr by (intro mult_left_mono) simp_all
    with hb mhr show ?thesis by simp
  qed
  have Mw: "2 * (of_int w * min a b) * of_int ht = (of_int (min (2 * (mw * ht)) (2 * (w * mh))) :: rat)"
  proof (cases "a \<le> b")
    case True
    with ab have "min (2 * (mw * ht)) (2 * (w * mh)) = 2 * (mw * ht)" by (simp add: mult.commute)
    moreover from True have "min a b = a" by simp
    ultimately show ?thesis using wa by simp
  next
    case False
    with ab have "min (2 * (mw * ht)) (2 * (w * mh)) = 2 * (w * mh)" by (simp add: mult.commute)
    moreover from False have "min a b = b" by simp
    ultimately show ?thesis using wb by simp
  qed
  have Mh: "2 * (of_int ht * min a b) * of_int w = (of_int (min (2 * (mw * ht)) (2 * (w * mh))) :: rat)"
  proof (cases "a \<le> b")
    case True
    with ab have "min (2 * (mw * ht)) (2 * (w * mh)) = 2 * (mw * ht)" by (simp add: mult.commute)
    moreover from True have "min a b = a" by simp
    ultimately show ?thesis using ha by (simp add: mult.commute)
  next
    case False
    with ab have "min (2 * (mw * ht)) (2 * (w * mh)) = 2 * (w * mh)" by (simp add: mult.commute)
    moreover from False have "min a b = b" by simp
    ultimately show ?thesis using hb by (simp add: mult.commute)
  qed
  from over have sd: "scaleDimensions w ht mw mh =
      (Math_round (jsMul (of_int w) (Math_min (jsDiv (of_int mw) (of_int w)) (jsDiv (of_int mh) (of_int ht)))),
       Math_round (jsMul (of_int ht) (Math_min (jsDiv (of_int mw) (of_int w)) (jsDiv (of_int mh) (of_int ht)))))"
    by (auto simp: scaleDimensions_def Let_def)
  from scaled_side_nearest [OF pos pos(1) pos(2) small(2) bw [unfolded a_def b_def] Mw [unfolded a_def b_def]]
  show "\<bar>of_int (fst (scaleDimensions w ht mw mh))
          - of_int w * min (of_int mw / of_int w) (of_int mh / of_int ht)\<bar> \<le> (1 / 2 :: rat)"
    by (simp only: sd fst_conv)
  from scaled_side_nearest [OF pos pos(2) pos(1) small(1) bh [unfolded a_def b_def] Mh [unfolded a_def b_def]]
  show "\<bar>of_int (snd (scaleDimensions w ht mw mh))
          - of_int ht * min (of_int mw / of_int w) (of_int mh / of_int ht)\<bar> \<le> (1 / 2 :: rat)"
    by (simp only: sd snd_conv)
qed

section \<open>Properties of the planned and the output dimensions\<close>

lemma Math_round_nearest: "\<bar>of_int (Math_round x) - x\<bar> \<le> 1 / 2"
proof -
  have a: "of_int \<lfloor>x + 1 / 2\<rfloor> \<le> x + 1 / 2" by (rule of_int_floor_le)
  have b: "x + 1 / 2 < of_int \<lfloor>x + 1 / 2\<rfloor> + 1"
    using floor_correct [of "x + 1 / 2"] by simp
  from a b have "of_int \<lfloor>x + 1 / 2\<rfloor> - x \<le> 1 / 2 \<and> - (of_int \<lfloor>x + 1 / 2\<rfloor> - x) \<le> 1 / 2"
    by linarith
  then have "\<bar>of_int \<lfloor>x + 1 / 2\<rfloor> - x\<bar> \<le> 1 / 2"
    by (rule abs_le_iff [THEN iffD2])
  then show ?thesis by (simp only: Math_round_def)
qed

lemma outputCanvas_size:
  assumes "outputCanvas h orientation (w, ht) = Inr canvas" and "orientation \<le> 8"
  shows "canvasWidth canvas = w \<and> canvasHeight canvas = ht"
proof -
  from assms(2) consider "orientation \<le> 1" | "orientation = 2" | "orientation = 3"
    | "orientation = 4" | "orientation = 5" | "orientation = 6" | "orientation = 7"
    | "orientation = 8"
    by arith
  then show ?thesis
    using assms(1)
    by cases
       (auto simp: outputCanvas_def displayDimensions_def newOffscreenCanvas_def
          applyOrientation_def transform_def setWidth_def setHeight_def Let_def
          split: if_splits sum.splits option.splits prod.splits)
qed

text \<open>
  C5 at a failing input. A bitmap of 4000 by 2000 with the bounds 1920 and 1080 is planned
  at 1920 by 960. With the orientation 6 the canvas is constructed at 960 by 1920, and
  \<open>applyOrientation\<close> then exchanges its width and height once more: the canvas that is
  drawn on and encoded is 1920 by 960, the planned size not swapped, while the result
  reports 960 by 1920.
\<close>

theorem rotated_canvas_not_swapped:
  "scaleDimensions 4000 2000 1920 1080 = (1920, 960) \<and>
   displayDimensions 6 (1920, 960) = (960, 1920) \<and>
   outputCanvas sampleHost 6 (1920, 960) =
     Inr \<lparr>canvasWidth = 1920, canvasHeight = 960, ctx = Some (0, 1, - 1, 0, 1920, 0)\<rparr> \<and>
   compressedDimensions (processImage sampleHost (sampleJob ''a'' (exifBuffer 6))) =
     \<lparr>width = 960, height = 1920\<rparr>"
proof -
  have c: "outputCanvas sampleHost 6 (1920, 960) =
             Inr \<lparr>canvasWidth = 1920, canvasHeight = 960, ctx = Some (0, 1, - 1, 0, 1920, 0)\<rparr>"
    by (simp add: outputCanvas_def displayDimensions_def newOffscreenCanvas_def sampleHost_def
          applyOrientation_def transform_def setWidth_def setHeight_def Let_def)
  have d: "displayDimensions 6 (1920, 960) = (960, 1920)"
    by (simp add: displayDimensions_def)
  have r: "compressedDimensions (processImage sampleHost (sampleJob ''a'' (exifBuffer 6))) =
             \<lparr>width = 960, height = 1920\<rparr>"
    by (simp add: processImage_def processImageTry_sample)
  from scaleDimensions_4000_2000 d c r show ?thesis by simp
qed


text \<open>
  C4. For a bitmap of positive width and height and positive bounds: when both sides are
  within their bounds the planned dimensions are the original ones; otherwise both sides
  are multiplied by the one factor \<open>min (maxWidth / width) (maxHeight / height)\<close>,
  computed in double precision, and each product is rounded to a nearest integer by
  \<open>Math.round\<close>. For sides and bounds below \<open>2 ^ 24\<close> the rounding errors of the
  doubles do not show: each planned side is a nearest integer of the exact product of
  the side and the exact factor. A bitmap of 4000 by 2000 with the bounds 1920 and 1080
  is planned at 1920 by 960, and one of 800 by 600 stays as it is.
\<close>

theorem scaleDimensions_plan:
  fixes w ht mw mh :: int
  assumes "0 < w" and "0 < ht" and "0 < mw" and "0 < mh"
  shows
    "(w \<le> mw \<and> ht \<le> mh \<longrightarrow> scaleDimensions w ht mw mh = (w, ht)) \<and>
     (\<not> (w \<le> mw \<and> ht \<le> mh) \<longrightarrow>
        scaleDimensions w ht mw mh =
          (Math_round (jsMul (of_int w)
             (Math_min (jsDiv (of_int mw) (of_int w)) (jsDiv (of_int mh) (of_int ht)))),
           Math_round (jsMul (of_int ht)
             (Math_min (jsDiv (of_int mw) (of_int w)) (jsDiv (of_int mh) (of_int ht))))) \<and>
        \<bar>of_int (fst (scaleDimensions w ht mw mh)) -
           jsMul (of_int w)
             (Math_min (jsDiv (of_int mw) (of_int w)) (jsDiv (of_int mh) (of_int ht)))\<bar> \<le> 1 / 2 \<and>
        \<bar>of_int (snd (scaleDimensions w ht mw mh)) -
           jsMul (of_int ht)
             (Math_min (jsDiv (of_int mw) (of_int w)) (jsDiv (of_int mh) (of_int ht)))\<bar> \<le> 1 / 2 \<and>
        (w < 2 ^ 24 \<and> ht < 2 ^ 24 \<and> mw < 2 ^ 24 \<and> mh < 2 ^ 24 \<longrightarrow>
           \<bar>of_int (fst (scaleDimensions w ht mw mh)) -
              of_int w * min (of_int mw / of_int w) (of_int mh / of_int ht)\<bar> \<le> (1 / 2 :: rat) \<and>
           \<bar>of_int (snd (scaleDimensions w ht mw mh)) -
              of_int ht * min (of_int mw / of_int w) (of_int mh / of_int ht)\<bar> \<le> (1 / 2 :: rat))) \<and>
     scaleDimensions 4000 2000 1920 1080 = (1920, 960) \<and>
     scaleDimensions 800 600 1920 1080 = (800, 600)"
proof (intro conjI impI)
  assume "w \<le> mw \<and> ht \<le> mh"
  then show "scaleDimensions w ht mw mh = (w, ht)"
    by (simp add: scaleDimensions_def)
next
  assume over: "\<not> (w \<le> mw \<and> ht \<le> mh)"
  then show sd: "scaleDimensions w ht mw mh =
          (Math_round (jsMul (of_int w)
             (Math_min (jsDiv (of_int mw) (of_int w)) (jsDiv (of_int mh) (of_int ht)))),
           Math_round (jsMul (of_int ht)
             (Math_min (jsDiv (of_int mw) (of_int w)) (jsDiv (of_int mh) (of_int ht)))))"
    by (auto simp: scaleDimensions_def Let_def)
  show "\<bar>of_int (fst (scaleDimensions w ht mw mh)) -
           jsMul (of_int w)
             (Math_min (jsDiv (of_int mw) (of_int w)) (jsDiv (of_int mh) (of_int ht)))\<bar> \<le> 1 / 2"
    by (simp only: sd fst_conv Math_round_nearest)
  show "\<bar>of_int (snd (scaleDimensions w ht mw mh)) -
           jsMul (of_int ht)
             (Math_min (jsDiv (of_int mw) (of_int w)) (jsDiv (of_int mh) (of_int ht)))\<bar> \<le> 1 / 2"
    by (simp only: sd snd_conv Math_round_nearest)
next
  assume over: "\<not> (w \<le> mw \<and> ht \<le> mh)"
    and small: "w < 2 ^ 24 \<and> ht < 2 ^ 24 \<and> mw < 2 ^ 24 \<and> mh < 2 ^ 24"
  from over have o: "w > mw \<or> ht > mh" by auto
  from small have s: "w < 2 ^ 24" "ht < 2 ^ 24" "mw < 2 ^ 24" "mh < 2 ^ 24" by simp_all
  show "\<bar>of_int (fst (scaleDimensions w ht mw mh)) -
          of_int w * min (of_int mw / of_int w) (of_int mh / of_int ht)\<bar> \<le> (1 / 2 :: rat)"
    by (rule scaleDimensions_nearest (1) [OF assms s o])
  show "\<bar>of_int (snd (scaleDimensions w ht mw mh)) -
          of_int ht * min (of_int mw / of_int w) (of_int mh / of_int ht)\<bar> \<le> (1 / 2 :: rat)"
    by (rule scaleDimensions_nearest (2) [OF assms s o])
next
  show "scaleDimensions 4000 2000 1920 1080 = (1920, 960)"
    by (rule scaleDimensions_4000_2000)
  show "scaleDimensions 800 600 1920 1080 = (800, 600)"
    by (rule scaleDimensions_800_600)
qed

theorem scaleDimensions_plan_witness:
  "(0 :: int) < 4000 \<and> (0 :: int) < 2000 \<and> (0 :: int) < 1920 \<and> (0 :: int) < 1080 \<and>
   \<not> ((4000 :: int) \<le> 1920 \<and> (2000 :: int) \<le> 1080) \<and>
   (4000 :: int) < 2 ^ 24 \<and> (2000 :: int) < 2 ^ 24 \<and> (1920 :: int) < 2 ^ 24 \<and> (1080 :: int) < 2 ^ 24 \<and>
   scaleDimensions 4000 2000 1920 1080 = (1920, 960) \<and>
   \<bar>of_int (fst (scaleDimensions 4000 2000 1920 1080)) -
      of_int 4000 * min (of_int 1920 / of_int 4000) (of_int 1080 / of_int 2000)\<bar> \<le> (1 / 2 :: rat) \<and>
   \<bar>of_int (snd (scaleDimensions 4000 2000 1920 1080)) -
      of_int 2000 * min (of_int 1920 / of_int 4000) (of_int 1080 / of_int 2000)\<bar> \<le> (1 / 2 :: rat) \<and>
   (0 :: int) < 800 \<and> (0 :: int) < 600 \<and> (800 :: int) \<le> 1920 \<and> (600 :: int) \<le> 1080 \<and>
   scaleDimensions 800 600 1920 1080 = (800, 600)"
proof -
  have p: "(0 :: int) < 4000" "(0 :: int) < 2000" "(0 :: int) < 1920" "(0 :: int) < 1080"
    by simp_all
  have q: "(0 :: int) < 800" "(0 :: int) < 600" by simp_all
  have o: "\<not> ((4000 :: int) \<le> 1920 \<and> (2000 :: int) \<le> 1080)" by simp
  have i: "(800 :: int) \<le> 1920 \<and> (600 :: int) \<le> 1080" by simp
  have s: "(4000 :: int) < 2 ^ 24 \<and> (2000 :: int) < 2 ^ 24 \<and> (1920 :: int) < 2 ^ 24 \<and>
           (1080 :: int) < 2 ^ 24"
    by simp
  note big = scaleDimensions_plan [OF p]
  note little = scaleDimensions_plan [OF q p(3) p(4)]
  from big o s have
    "\<bar>of_int (fst (scaleDimensions 4000 2000 1920 1080)) -
       of_int 4000 * min (of_int 1920 / of_int 4000) (of_int 1080 / of_int 2000)\<bar> \<le> (1 / 2 :: rat) \<and>
     \<bar>of_int (snd (scaleDimensions 4000 2000 1920 1080)) -
       of_int 2000 * min (of_int 1920 / of_int 4000) (of_int 1080 / of_int 2000)\<bar> \<le> (1 / 2 :: rat)"
    by blast
  moreover from big have "scaleDimensions 4000 2000 1920 1080 = (1920, 960)" by blast
  moreover from little i have "scaleDimensions 800 600 1920 1080 = (800, 600)" by blast
  ultimately show ?thesis using p q o i s by blast
qed

end
